theory Spec2Isabelle
  imports Complex_Main "HOL-Library.Sublist" "HOL-Library.Multiset"
begin

section \<open>Go values used by package search\<close>

text \<open>
  A Go \<^verbatim>\<open>string\<close> is a sequence of bytes, here a \<^typ>\<open>string\<close>; offsets and
  lengths count bytes. A Go \<^verbatim>\<open>int\<close> (64 bits) is modelled by \<^typ>\<open>int\<close>: the
  conversion from \<^verbatim>\<open>float64\<close> is the only place where a value of the program can
  leave the 64-bit range, and the arithmetic of \<^verbatim>\<open>extractContext\<close> is used in the
  theorems below only on offsets between 0 and the length of a string, where every
  intermediate value is bounded by that length plus 50. A run-time panic is a value of
  type \<open>panic\<close>, returned on the left of a sum.
\<close>

datatype panic = SliceBoundsOutOfRange | IndexOutOfRange

text \<open>\<^verbatim>\<open>s[lo:hi]\<close>: panics unless \<open>0 \<le> lo \<le> hi \<le> len(s)\<close>.\<close>

definition slice :: "string \<Rightarrow> int \<Rightarrow> int \<Rightarrow> panic + string" where
  "slice s lo hi =
     (if 0 \<le> lo \<and> lo \<le> hi \<and> hi \<le> int (length s)
      then Inr (take (nat (hi - lo)) (drop (nat lo) s))
      else Inl SliceBoundsOutOfRange)"

text \<open>\<^verbatim>\<open>s[lo:]\<close>\<close>

definition slice_from :: "string \<Rightarrow> int \<Rightarrow> panic + string" where
  "slice_from s lo = slice s lo (int (length s))"

text \<open>
  \<^verbatim>\<open>strings.Index(s, sep)\<close>: the index of the first instance of \<open>sep\<close> in \<open>s\<close>, or
  \<open>-1\<close>; \<^verbatim>\<open>strings.Contains(s, sub)\<close> is \<^verbatim>\<open>Index(s, sub) >= 0\<close>.
\<close>

fun index_from :: "string \<Rightarrow> string \<Rightarrow> int \<Rightarrow> int" where
  "index_from [] sep i = (if sep = [] then i else - 1)"
| "index_from (c # cs) sep i =
     (if prefix sep (c # cs) then i else index_from cs sep (i + 1))"

definition strings_Index :: "string \<Rightarrow> string \<Rightarrow> int" where
  "strings_Index s sep = index_from s sep 0"

definition strings_Contains :: "string \<Rightarrow> string \<Rightarrow> bool" where
  "strings_Contains s sub = (0 \<le> strings_Index s sub)"

text \<open>
  The conversion \<^verbatim>\<open>int(f)\<close> of a \<^verbatim>\<open>float64\<close>: the fraction is discarded (truncation
  towards zero). When the truncated value does not fit in 64 bits, the Go
  specification leaves the result to the implementation; on amd64 it is the smallest
  \<^verbatim>\<open>int64\<close>, which is what the model returns. The numbers of a decoded JSON document
  are finite, hence reals.
\<close>

definition go_int :: "real \<Rightarrow> int" where
  "go_int x =
     (let t = (if 0 \<le> x then \<lfloor>x\<rfloor> else \<lceil>x\<rceil>)
      in if - (2 ^ 63) \<le> t \<and> t < 2 ^ 63 then t else - (2 ^ 63))"

text \<open>
  Errors: those of \<^verbatim>\<open>os/exec\<close> (\<^verbatim>\<open>*exec.ExitError\<close> with its exit code,
  \<^verbatim>\<open>exec.ErrNotFound\<close> when the executable is not found, any other failure to
  start or wait) and those of a context (\<^verbatim>\<open>ctx.Err()\<close>).
\<close>

datatype error =
    ExitError int
  | ErrNotFound
  | ErrOther string
  | Canceled
  | DeadlineExceeded

section \<open>The data model (model.SessionInfo, search.Match, search.SearchResult)\<close>

text \<open>\<^verbatim>\<open>time.Time\<close> is only ever formatted; it is kept as an opaque number.\<close>

type_synonym time = int

record SessionInfo =
  ID :: string
  FilePath :: string
  LastActive :: time

record Match =
  Text :: string
  LineNumber :: int
  StartOffset :: int
  EndOffset :: int
  Context :: string

record SearchResult =
  SessionID :: string
  SessionIndex :: int
  Matches :: "Match list"
  Score :: real

text \<open>The zero values \<^verbatim>\<open>Match{}\<close> and \<^verbatim>\<open>SearchResult{}\<close>.\<close>

definition zeroMatch :: Match where
  "zeroMatch = \<lparr>Text = [], LineNumber = 0, StartOffset = 0, EndOffset = 0, Context = []\<rparr>"

definition zeroResult :: SearchResult where
  "zeroResult = \<lparr>SessionID = [], SessionIndex = 0, Matches = [], Score = 0\<rparr>"

section \<open>extractContext\<close>

text \<open>The literal \<^verbatim>\<open>`"content":"`\<close> and the double quote.\<close>

definition contentKey :: string where
  \<open>contentKey = ''"content":"''\<close>

definition dquote :: string where
  \<open>dquote = ''"''\<close>

text \<open>
  The window inside the content field (the inner block of \<^verbatim>\<open>extractContext\<close>):
  50 bytes before the match and 50 after it, cut to the field, with \<^verbatim>\<open>...\<close> written
  where \<open>contextStart > 0\<close> and where \<open>contextEnd < len(content)\<close>.
\<close>

definition contentWindow :: "string \<Rightarrow> int \<Rightarrow> int \<Rightarrow> int \<Rightarrow> panic + string" where
  "contentWindow content posInContent matchStart matchEnd =
     (let contextStart = posInContent - 50;
          contextStart = (if contextStart < 0 then 0 else contextStart);
          contextEnd = posInContent + (matchEnd - matchStart) + 50;
          contextEnd = (if contextEnd > int (length content) then int (length content)
                        else contextEnd)
      in case slice content contextStart contextEnd of
           Inl p \<Rightarrow> Inl p
         | Inr w \<Rightarrow>
             Inr ((if contextStart > 0 then ''...'' else []) @ w @
                  (if contextEnd < int (length content) then ''...'' else [])))"

text \<open>The fallback at the end of \<^verbatim>\<open>extractContext\<close>: 30 bytes each side, in the whole line.\<close>

definition lineWindow :: "string \<Rightarrow> int \<Rightarrow> int \<Rightarrow> panic + string" where
  "lineWindow text matchStart matchEnd =
     (let contextStart = matchStart - 30;
          contextStart = (if contextStart < 0 then 0 else contextStart);
          contextEnd = matchEnd + 30;
          contextEnd = (if contextEnd > int (length text) then int (length text)
                        else contextEnd)
      in case slice text contextStart contextEnd of
           Inl p \<Rightarrow> Inl p
         | Inr w \<Rightarrow>
             Inr ((if contextStart > 0 then ''...'' else []) @ w @
                  (if contextEnd < int (length text) then ''...'' else [])))"

definition extractContext :: "string \<Rightarrow> int \<Rightarrow> int \<Rightarrow> panic + string" where
  "extractContext text matchStart matchEnd =
     (if strings_Contains text contentKey then
        (let contentStart = strings_Index text contentKey in
         if contentStart \<noteq> - 1 then
           (let contentStart = contentStart + int (length contentKey) in
            case slice_from text contentStart of
              Inl p \<Rightarrow> Inl p
            | Inr rest \<Rightarrow>
                (let contentEnd = strings_Index rest dquote in
                 if contentEnd \<noteq> - 1 then
                   (case slice text contentStart (contentStart + contentEnd) of
                      Inl p \<Rightarrow> Inl p
                    | Inr content \<Rightarrow>
                        if matchStart \<ge> contentStart \<and> matchStart < contentStart + contentEnd
                        then contentWindow content (matchStart - contentStart) matchStart matchEnd
                        else lineWindow text matchStart matchEnd)
                 else lineWindow text matchStart matchEnd))
         else lineWindow text matchStart matchEnd)
      else lineWindow text matchStart matchEnd)"

text \<open>
  Vocabulary for stating what \<^verbatim>\<open>extractContext\<close> computes. \<open>contentField text\<close> is
  the pair \<open>(contentStart, contentStart + contentEnd)\<close> of the code, when both of its
  calls of \<^verbatim>\<open>strings.Index\<close> find something: the bytes after the first
  \<^verbatim>\<open>"content":"\<close> up to the next double quote, whether that quote is escaped or
  not. \<open>snippet r field a b\<close> is the window of \<open>r\<close> bytes before offset \<open>a\<close> and \<open>r\<close>
  bytes after offset \<open>b\<close> of \<open>field\<close>, cut to the field, with an ellipsis on each side
  where bytes of the field were left out.
\<close>

definition contentField :: "string \<Rightarrow> (int \<times> int) option" where
  "contentField text =
     (let i = strings_Index text contentKey in
      if i < 0 then None
      else (let cs = i + int (length contentKey);
                j = strings_Index (drop (nat cs) text) dquote
            in if j < 0 then None else Some (cs, cs + j)))"

definition snippet :: "int \<Rightarrow> string \<Rightarrow> int \<Rightarrow> int \<Rightarrow> string" where
  "snippet r field a b =
     (let lo = max 0 (a - r); hi = min (int (length field)) (b + r)
      in (if 0 < lo then ''...'' else []) @
         take (nat (hi - lo)) (drop (nat lo) field) @
         (if hi < int (length field) then ''...'' else []))"

text \<open>
  The specification's words, independently of the code. The embedded field is
  \<^verbatim>\<open>"content":"<escaped text>"\<close>: \<open>embeddedField text\<close> is the span of the escaped
  text, from the byte after the first \<^verbatim>\<open>"content":"\<close> to the double quote that closes
  the JSON string, the first one that no backslash escapes (\<open>closingQuote\<close> skips the
  byte after each backslash); there is no field when the key is absent or the string
  is never closed. \<open>snippet_spec\<close> is the window with the specification's ellipses:
  one in front when the window was clipped at the left edge of the field (the \<open>r\<close>
  bytes before the match reach beyond it), one behind when it was clipped at the right
  edge. \<open>extractContext_spec\<close> is the specification's reading of \<^verbatim>\<open>extractContext\<close>,
  word for word: the field window when the whole match span \<open>[start, end)\<close> lies
  inside the field's span, the line window otherwise.
\<close>

fun closingQuote :: "string \<Rightarrow> int \<Rightarrow> int" where
  "closingQuote [] i = - 1"
| "closingQuote [c] i = (if c = CHR 0x22 then i else - 1)"
| "closingQuote (c # d # ds) i =
     (if c = CHR 0x22 then i
      else if c = CHR 0x5C then closingQuote ds (i + 2)
      else closingQuote (d # ds) (i + 1))"

definition embeddedField :: "string \<Rightarrow> (int \<times> int) option" where
  "embeddedField text =
     (let i = strings_Index text contentKey in
      if i < 0 then None
      else (let cs = i + int (length contentKey);
                j = closingQuote (drop (nat cs) text) 0
            in if j < 0 then None else Some (cs, cs + j)))"

definition snippet_spec :: "int \<Rightarrow> string \<Rightarrow> int \<Rightarrow> int \<Rightarrow> string" where
  "snippet_spec r field a b =
     (let lo = max 0 (a - r); hi = min (int (length field)) (b + r)
      in (if a - r < 0 then ''...'' else []) @
         take (nat (hi - lo)) (drop (nat lo) field) @
         (if int (length field) < b + r then ''...'' else []))"

definition extractContext_spec :: "string \<Rightarrow> int \<Rightarrow> int \<Rightarrow> string" where
  "extractContext_spec text matchStart matchEnd =
     (case embeddedField text of
        Some (cs, ce) \<Rightarrow>
          if cs \<le> matchStart \<and> matchEnd \<le> ce
          then snippet_spec 50 (take (nat (ce - cs)) (drop (nat cs) text))
                 (matchStart - cs) (matchEnd - cs)
          else snippet_spec 30 text matchStart matchEnd
      | None \<Rightarrow> snippet_spec 30 text matchStart matchEnd)"

text \<open>
  The raw line of the specification's example; a line that is no record; a record
  whose content string is never closed; and a record in which text follows the field.
\<close>

definition oauthLine :: string where
  \<open>oauthLine = ''{"type":"message","role":"user","content":"I need help with OAuth implementation"}''\<close>

definition plainLine :: string where
  "plainLine = ''a plain line that mentions OAuth once, outside of any record''"

definition openLine :: string where
  \<open>openLine = ''{"content":"OAuth is cut here''\<close>

definition straddleLine :: string where
  \<open>straddleLine = ''{"content":"abc","role":"user"}''\<close>

section \<open>searchFile: running the tool and reading its output\<close>

text \<open>
  What \<^verbatim>\<open>json.Unmarshal\<close> stores in an \<^verbatim>\<open>interface{}\<close>: \<^verbatim>\<open>nil\<close>, a \<^verbatim>\<open>bool\<close>, a
  \<^verbatim>\<open>float64\<close>, a \<^verbatim>\<open>string\<close>, a \<^verbatim>\<open>[]interface{}\<close> or a \<^verbatim>\<open>map[string]interface{}\<close>
  (kept as the list of its entries).
\<close>

datatype json =
    JNull
  | JBool bool
  | JNum real
  | JStr string
  | JArr "json list"
  | JObj "(string \<times> json) list"

text \<open>\<^verbatim>\<open>m[key]\<close> on a map of interfaces: \<^verbatim>\<open>nil\<close> when the key is absent.\<close>

definition jget :: "(string \<times> json) list \<Rightarrow> string \<Rightarrow> json" where
  "jget m key = (case map_of m key of None \<Rightarrow> JNull | Some v \<Rightarrow> v)"

text \<open>
  The two library calls of \<^verbatim>\<open>searchFile\<close> are parameters of the model.
  \<open>exec name args\<close> is \<^verbatim>\<open>exec.Command(name, args...).Output()\<close>: the standard output
  and the error. \<open>unmarshal line\<close> is \<^verbatim>\<open>json.Unmarshal(line, &result)\<close> for a
  \<^verbatim>\<open>map[string]interface{}\<close>: \<open>None\<close> when it returns an error, the map otherwise.
\<close>

type_synonym exec = "string \<Rightarrow> string list \<Rightarrow> string \<times> error option"

type_synonym unmarshal = "string \<Rightarrow> (string \<times> json) list option"

text \<open>
  \<^verbatim>\<open>bufio.Scanner\<close> with its default split function \<^verbatim>\<open>ScanLines\<close> and its default
  buffer: the tokens are the lines of the input without their end-of-line marker (a
  newline, with one carriage return before it dropped); a last line with no newline
  is a token when it is not empty; a line that does not fit in the buffer of
  \<^verbatim>\<open>MaxScanTokenSize\<close> bytes together with its newline ends the scan.
\<close>

definition maxScanTokenSize :: nat where
  "maxScanTokenSize = 64 * 1024"

fun splitLines :: "string \<Rightarrow> string \<Rightarrow> string list" where
  "splitLines [] cur = (if cur = [] then [] else [cur])"
| "splitLines (c # cs) cur =
     (if c = CHR 0x0A then cur # splitLines cs [] else splitLines cs (cur @ [c]))"

definition dropCR :: "string \<Rightarrow> string" where
  "dropCR l = (if l \<noteq> [] \<and> last l = CHR 0x0D then butlast l else l)"

definition scanLines :: "string \<Rightarrow> string list" where
  "scanLines output =
     map dropCR (takeWhile (\<lambda>l. length l < maxScanTokenSize) (splitLines output []))"

text \<open>
  The specification's words, independently of the code: all the lines of the tool's
  newline-delimited output, whatever their length.
\<close>

definition outputLines :: "string \<Rightarrow> string list" where
  "outputLines output = map dropCR (splitLines output [])"

text \<open>
  The body of \<^verbatim>\<open>if data, ok := result["data"].(map[string]interface{}); ok\<close>: the
  \<^verbatim>\<open>Match\<close> built from the data of one record. The first component of \<open>submatchOf\<close>
  is the match with its offsets stored, then \<^verbatim>\<open>matchStartPos\<close>, \<^verbatim>\<open>matchEndPos\<close>
  and \<^verbatim>\<open>hasPositions\<close>.
\<close>

definition submatchOf :: "(string \<times> json) list \<Rightarrow> Match \<Rightarrow> Match \<times> int \<times> int \<times> bool" where
  "submatchOf data match =
     (case jget data ''submatches'' of
        JArr submatches \<Rightarrow>
          (if length submatches > 0 then
             (case submatches ! 0 of
                JObj submatch \<Rightarrow>
                  (let (match, matchStartPos, hasPositions) =
                         (case jget submatch ''start'' of
                            JNum start \<Rightarrow>
                              (match\<lparr>StartOffset := go_int start\<rparr>, go_int start, True)
                          | _ \<Rightarrow> (match, 0, False));
                       (match, matchEndPos) =
                         (case jget submatch ''end'' of
                            JNum end' \<Rightarrow> (match\<lparr>EndOffset := go_int end'\<rparr>, go_int end')
                          | _ \<Rightarrow> (match, 0))
                   in (match, matchStartPos, matchEndPos, hasPositions))
              | _ \<Rightarrow> (match, 0, 0, False))
           else (match, 0, 0, False))
      | _ \<Rightarrow> (match, 0, 0, False))"

definition matchOfData :: "(string \<times> json) list \<Rightarrow> panic + Match" where
  "matchOfData data =
     (let match = zeroMatch;
          match = (case jget data ''line_number'' of
                     JNum lineNumber \<Rightarrow> match\<lparr>LineNumber := go_int lineNumber\<rparr>
                   | _ \<Rightarrow> match)
      in case jget data ''lines'' of
           JObj lines \<Rightarrow>
             (case jget lines ''text'' of
                JStr text \<Rightarrow>
                  (let match = match\<lparr>Text := text\<rparr>;
                       (match, matchStartPos, matchEndPos, hasPositions) = submatchOf data match
                   in if hasPositions then
                        (case extractContext text matchStartPos matchEndPos of
                           Inl p \<Rightarrow> Inl p
                         | Inr c \<Rightarrow> Inr (match\<lparr>Context := c\<rparr>))
                      else Inr match)
              | _ \<Rightarrow> Inr match)
         | _ \<Rightarrow> Inr match)"

text \<open>
  The loop \<^verbatim>\<open>for scanner.Scan() { ... }\<close> over the scanner's tokens, with the slice
  \<^verbatim>\<open>matches\<close> as accumulator.
\<close>

fun parseLines :: "unmarshal \<Rightarrow> string list \<Rightarrow> Match list \<Rightarrow> panic + Match list" where
  "parseLines um [] matches = Inr matches"
| "parseLines um (l # ls) matches =
     (case um l of
        None \<Rightarrow> parseLines um ls matches
      | Some result \<Rightarrow>
          if jget result ''type'' = JStr ''match'' then
            (case jget result ''data'' of
               JObj data \<Rightarrow>
                 (case matchOfData data of
                    Inl p \<Rightarrow> Inl p
                  | Inr match \<Rightarrow> parseLines um ls (matches @ [match]))
             | _ \<Rightarrow> parseLines um ls matches)
          else parseLines um ls matches)"

record contentEngine =
  maxWorkers :: int
  rgPath :: string

text \<open>
  \<^verbatim>\<open>searchFile\<close> returns the pair \<^verbatim>\<open>([]Match, error)\<close>, \<open>None\<close> for the \<^verbatim>\<open>nil\<close> error
  and \<open>[]\<close> for the \<^verbatim>\<open>nil\<close> slice, unless \<^verbatim>\<open>extractContext\<close> panics.
\<close>

definition rgArgs :: "string \<Rightarrow> string \<Rightarrow> string list" where
  "rgArgs query filePath =
     [''--json'', ''--max-count'', ''20'', ''--context'', ''1'', ''--ignore-case'',
      query, filePath]"

definition searchFile ::
  "exec \<Rightarrow> unmarshal \<Rightarrow> contentEngine \<Rightarrow> string \<Rightarrow> string \<Rightarrow> panic + (Match list \<times> error option)"
where
  "searchFile exec um c query filePath =
     (case exec (rgPath c) (rgArgs query filePath) of
        (output, Some err) \<Rightarrow>
          (case err of
             ExitError code \<Rightarrow> if code = 1 then Inr ([], None) else Inr ([], Some err)
           | _ \<Rightarrow> Inr ([], Some err))
      | (output, None) \<Rightarrow>
          (case parseLines um (scanLines output) [] of
             Inl p \<Rightarrow> Inl p
           | Inr matches \<Rightarrow> Inr (matches, None)))"

text \<open>
  \<^verbatim>\<open>findRipgrep\<close>: the first candidate that \<^verbatim>\<open>exec.LookPath\<close> finds (\<open>lookPath p\<close> holds
  when it returns no error), and \<^verbatim>\<open>"rg"\<close> when it finds none.
\<close>

definition rgCandidates :: "string list" where
  "rgCandidates =
     [''rg'', ''/usr/local/bin/rg'', ''/usr/bin/rg'', ''/opt/homebrew/bin/rg'',
      ''/opt/homebrew/Cellar/ripgrep/14.1.1/bin/rg'']"

definition findRipgrep :: "(string \<Rightarrow> bool) \<Rightarrow> string" where
  "findRipgrep lookPath = (case find lookPath rgCandidates of Some path \<Rightarrow> path | None \<Rightarrow> ''rg'')"

definition NewContentEngine :: "(string \<Rightarrow> bool) \<Rightarrow> contentEngine" where
  "NewContentEngine lookPath = \<lparr>maxWorkers = 4, rgPath = findRipgrep lookPath\<rparr>"

section \<open>Filter\<close>

text \<open>
  The fuzzy matcher is a library (\<^verbatim>\<open>github.com/sahilm/fuzzy\<close>), a parameter of the
  model: \<open>findFrom pattern strings\<close> is \<^verbatim>\<open>fuzzy.FindFrom(pattern, source)\<close>, where
  \<open>strings\<close> lists \<^verbatim>\<open>source.String(i)\<close> for \<open>i < source.Len()\<close>. A \<^verbatim>\<open>fuzzy.Match\<close>
  has the fields \<^verbatim>\<open>Str\<close>, \<^verbatim>\<open>Index\<close>, \<^verbatim>\<open>MatchedIndexes\<close> and \<^verbatim>\<open>Score\<close> (here
  \<open>MatchScore\<close>, the name \<open>Score\<close> being the field of a \<open>SearchResult\<close>). The
  \<^verbatim>\<open>float64\<close> score of a result is a real number: \<^verbatim>\<open>float64(n)\<close> is \<open>n\<close> itself for
  every integer below \<open>2^53\<close> in absolute value.
\<close>

record fuzzyMatch =
  Str :: string
  Index :: int
  MatchedIndexes :: "int list"
  MatchScore :: int

type_synonym findFrom = "string \<Rightarrow> string list \<Rightarrow> fuzzyMatch list"

text \<open>
  \<^verbatim>\<open>sessionSource.String(i)\<close>; \<open>format\<close> is
  \<^verbatim>\<open>LastActive.Format("2006-01-02 15:04")\<close>.
\<close>

definition sessionSource_String :: "(time \<Rightarrow> string) \<Rightarrow> SessionInfo list \<Rightarrow> nat \<Rightarrow> string" where
  "sessionSource_String format sessions i =
     ID (sessions ! i) @ '' '' @ format (LastActive (sessions ! i))"

text \<open>
  The loop of the empty query: \<^verbatim>\<open>results[i] = SearchResult{...}\<close> for every session,
  on a slice made with \<^verbatim>\<open>len(sessions)\<close> zero values.
\<close>

fun fillResults :: "(nat \<times> SessionInfo) list \<Rightarrow> SearchResult list \<Rightarrow> panic + SearchResult list" where
  "fillResults [] results = Inr results"
| "fillResults ((i, session) # rest) results =
     (if i < length results
      then fillResults rest
             (results[i := zeroResult\<lparr>SessionID := ID session, SessionIndex := int i, Score := 1\<rparr>])
      else Inl IndexOutOfRange)"

text \<open>The loop over the matches of a non-empty query; \<^verbatim>\<open>sessions[match.Index]\<close> may panic.\<close>

definition matchIndices :: "int list \<Rightarrow> Match list" where
  "matchIndices idxs = map (\<lambda>idx. zeroMatch\<lparr>StartOffset := idx, EndOffset := idx + 1\<rparr>) idxs"

fun collectMatches ::
  "SessionInfo list \<Rightarrow> fuzzyMatch list \<Rightarrow> SearchResult list \<Rightarrow> panic + SearchResult list"
where
  "collectMatches sessions [] results = Inr results"
| "collectMatches sessions (match # rest) results =
     (if 0 \<le> Index match \<and> Index match < int (length sessions)
      then collectMatches sessions rest
             (results @
              [\<lparr>SessionID = ID (sessions ! nat (Index match)),
                SessionIndex = Index match,
                Matches = matchIndices (MatchedIndexes match),
                Score = real_of_int (MatchScore match)\<rparr>])
      else Inl IndexOutOfRange)"

definition Filter ::
  "findFrom \<Rightarrow> (time \<Rightarrow> string) \<Rightarrow> string \<Rightarrow> SessionInfo list \<Rightarrow> panic + SearchResult list"
where
  "Filter findFrom format query sessions =
     (if query = [] then
        fillResults (enumerate 0 sessions) (replicate (length sessions) zeroResult)
      else
        (let matches = findFrom query
                         (map (sessionSource_String format sessions) [0..<length sessions])
         in collectMatches sessions matches []))"

text \<open>
  The order the specification asks of \<^verbatim>\<open>Filter\<close>: by score, highest first, and by
  position in the input among equal scores.
\<close>

definition rankedBefore :: "SearchResult \<Rightarrow> SearchResult \<Rightarrow> bool" where
  "rankedBefore a b =
     (Score a > Score b \<or> (Score a = Score b \<and> SessionIndex a < SessionIndex b))"

definition ranked :: "SearchResult list \<Rightarrow> bool" where
  "ranked results = sorted_wrt rankedBefore results"

text \<open>
  Vocabulary for stating what \<^verbatim>\<open>searchFile\<close> and \<^verbatim>\<open>Filter\<close> compute: the lines of
  the tool's output that decode to a record whose \<^verbatim>\<open>type\<close> is \<^verbatim>\<open>"match"\<close>, the
  \<^verbatim>\<open>SearchResult\<close> that \<^verbatim>\<open>Filter\<close> builds from one \<^verbatim>\<open>fuzzy.Match\<close>, and the
  specification's order on the matcher's side.
\<close>

definition isMatchRecord :: "unmarshal \<Rightarrow> string \<Rightarrow> bool" where
  "isMatchRecord um l =
     (case um l of None \<Rightarrow> False | Some result \<Rightarrow> jget result ''type'' = JStr ''match'')"

definition resultOfMatch :: "SessionInfo list \<Rightarrow> fuzzyMatch \<Rightarrow> SearchResult" where
  "resultOfMatch sessions match =
     \<lparr>SessionID = ID (sessions ! nat (Index match)),
      SessionIndex = Index match,
      Matches = matchIndices (MatchedIndexes match),
      Score = real_of_int (MatchScore match)\<rparr>"

definition matchRankedBefore :: "fuzzyMatch \<Rightarrow> fuzzyMatch \<Rightarrow> bool" where
  "matchRankedBefore a b =
     (MatchScore a > MatchScore b \<or> (MatchScore a = MatchScore b \<and> Index a < Index b))"

text \<open>
  Concrete inputs for the examples: a decoder that knows three lines (a match record
  for the example line, a \<^verbatim>\<open>begin\<close> record, and nothing else), two runs of the tool,
  two sessions, and a matcher that reports two matches of equal score, the later
  session first.
\<close>

definition demoData :: "(string \<times> json) list" where
  "demoData =
     [(''line_number'', JNum 1),
      (''lines'', JObj [(''text'', JStr oauthLine)]),
      (''submatches'', JArr [JObj [(''start'', JNum 60), (''end'', JNum 65)]])]"

definition demoRecord :: "(string \<times> json) list" where
  "demoRecord = [(''type'', JStr ''match''), (''data'', JObj demoData)]"

definition demoUnmarshal :: unmarshal where
  "demoUnmarshal l =
     (if l = ''M'' then Some demoRecord
      else if l = ''B'' then Some [(''type'', JStr ''begin'')]
      else None)"

definition demoOutput :: string where
  "demoOutput = ''garbage'' @ [CHR 0x0A] @ ''B'' @ [CHR 0x0A] @ ''M'' @ [CHR 0x0A] @ ''{''"

definition demoExec :: exec where
  "demoExec name args = (demoOutput, None)"

text \<open>
  An output whose first line has 65536 bytes and is no JSON document, followed by the
  match record.
\<close>

definition longOutput :: string where
  "longOutput = replicate 65536 (CHR ''x'') @ [CHR 0x0A] @ ''M'' @ [CHR 0x0A]"

definition longExec :: exec where
  "longExec name args = (longOutput, None)"

definition demoExecNoMatch :: exec where
  "demoExecNoMatch name args = (''partial output'', Some (ExitError 1))"

definition demoEngine :: contentEngine where
  "demoEngine = \<lparr>maxWorkers = 4, rgPath = ''rg''\<rparr>"

definition oauthMatch :: Match where
  "oauthMatch =
     \<lparr>Text = oauthLine, LineNumber = 1, StartOffset = 60, EndOffset = 65,
      Context = ''I need help with OAuth implementation''\<rparr>"

definition twoSessions :: "SessionInfo list" where
  "twoSessions =
     [\<lparr>ID = ''a1'', FilePath = ''/s/a1.jsonl'', LastActive = 0\<rparr>,
      \<lparr>ID = ''a2'', FilePath = ''/s/a2.jsonl'', LastActive = 0\<rparr>]"

definition demoFormat :: "time \<Rightarrow> string" where
  "demoFormat t = ''1970-01-01 00:00''"

definition tiedMatcher :: findFrom where
  "tiedMatcher pattern strs =
     [\<lparr>Str = strs ! 1, Index = 1, MatchedIndexes = [0], MatchScore = 3\<rparr>,
      \<lparr>Str = strs ! 0, Index = 0, MatchedIndexes = [0], MatchScore = 3\<rparr>]"

definition tiedResults :: "SearchResult list" where
  "tiedResults =
     [\<lparr>SessionID = ''a2'', SessionIndex = 1,
       Matches = [\<lparr>Text = [], LineNumber = 0, StartOffset = 0, EndOffset = 1, Context = []\<rparr>],
       Score = 3\<rparr>,
      \<lparr>SessionID = ''a1'', SessionIndex = 0,
       Matches = [\<lparr>Text = [], LineNumber = 0, StartOffset = 0, EndOffset = 1, Context = []\<rparr>],
       Score = 3\<rparr>]"

section \<open>SearchContent: the worker pool\<close>

text \<open>
  \<^verbatim>\<open>SearchContent\<close> runs \<^verbatim>\<open>maxWorkers\<close> goroutines beside its own, and one more that
  closes the results channel. The model is a transition system: a state holds the
  two buffered channels, the context's error, where the main goroutine and each
  worker stand, and a schedule (a list of events) says which goroutine moves next.
  Every step is one operation on shared state (a channel operation, a \<^verbatim>\<open>select\<close>, a
  close); a step that would block is not enabled.
\<close>

record searchJob =
  query :: string
  session :: SessionInfo
  sessionIndex :: int

text \<open>
  A worker is at \<^verbatim>\<open>for job := range jobs\<close>, at the \<^verbatim>\<open>select\<close> with the job it
  received, at \<^verbatim>\<open>results <- SearchResult{...}\<close>, or it has returned.
\<close>

datatype worker =
    Receiving
  | Selecting searchJob
  | Sending SearchResult
  | Exited

text \<open>
  The main goroutine is at the \<^verbatim>\<open>select\<close> of the enqueue loop for index \<open>i\<close> (at
  \<^verbatim>\<open>close(jobs)\<close> after the loop when \<open>i = len(sessions)\<close>), in
  \<^verbatim>\<open>for result := range results\<close> with the slice \<^verbatim>\<open>searchResults\<close>, or it has
  returned a result list and an error.
\<close>

datatype mainpc =
    Enqueue nat
  | Collect "SearchResult list"
  | Returned "SearchResult list" "error option"

record state =
  ctxErr :: "error option"
  jobs :: "searchJob list"
  jobsClosed :: bool
  results :: "SearchResult list"
  resultsClosed :: bool
  workers :: "worker list"
  pc :: mainpc
  crashed :: "panic option"

text \<open>
  The events: the context is cancelled or its deadline passes; the main goroutine
  moves (the flag says whether its \<^verbatim>\<open>select\<close> takes the \<^verbatim>\<open>ctx.Done()\<close> case, which
  Go may choose whenever that case is ready); worker \<open>k\<close> moves; the goroutine
  \<^verbatim>\<open>wg.Wait(); close(results)\<close> moves.
\<close>

datatype event =
    CtxDone error
  | MainStep bool
  | WorkerStep nat
  | CloserStep

text \<open>The engine's \<^verbatim>\<open>searchFile\<close> method, as the workers call it.\<close>

type_synonym searcher = "string \<Rightarrow> string \<Rightarrow> panic + (Match list \<times> error option)"

definition initial :: "contentEngine \<Rightarrow> state" where
  "initial c =
     \<lparr>ctxErr = None, jobs = [], jobsClosed = False, results = [], resultsClosed = False,
      workers = replicate (nat (maxWorkers c)) Receiving, pc = Enqueue 0, crashed = None\<rparr>"

text \<open>
  The main goroutine. In the enqueue loop the \<^verbatim>\<open>select\<close> has two cases:
  \<^verbatim>\<open>ctx.Done()\<close>, ready once the context has an error, and the send on \<^verbatim>\<open>jobs\<close>,
  ready while the buffer (of capacity \<^verbatim>\<open>len(sessions)\<close>) has room. After the loop
  it closes \<^verbatim>\<open>jobs\<close> and starts the closing goroutine; then it receives from
  \<^verbatim>\<open>results\<close> until the channel is closed and empty.
\<close>

definition mainStep :: "string \<Rightarrow> SessionInfo list \<Rightarrow> bool \<Rightarrow> state \<Rightarrow> state option" where
  "mainStep q sessions takeDone s =
     (case pc s of
        Enqueue i \<Rightarrow>
          if i < length sessions then
            (if takeDone then
               (case ctxErr s of
                  Some e \<Rightarrow> Some (s\<lparr>jobsClosed := True, pc := Returned [] (Some e)\<rparr>)
                | None \<Rightarrow> None)
             else if length (jobs s) < length sessions then
               Some (s\<lparr>jobs := jobs s @ [\<lparr>query = q, session = sessions ! i,
                                           sessionIndex = int i\<rparr>],
                       pc := Enqueue (i + 1)\<rparr>)
             else None)
          else Some (s\<lparr>jobsClosed := True, pc := Collect []\<rparr>)
      | Collect searchResults \<Rightarrow>
          (case results s of
             result # rest \<Rightarrow>
               Some (s\<lparr>results := rest,
                       pc := Collect (if length (Matches result) > 0
                                      then searchResults @ [result] else searchResults)\<rparr>)
           | [] \<Rightarrow>
               if resultsClosed s then Some (s\<lparr>pc := Returned searchResults None\<rparr>) else None)
      | Returned _ _ \<Rightarrow> None)"

text \<open>
  A worker. Receiving takes the first job of the buffer, or ends the loop when
  \<^verbatim>\<open>jobs\<close> is closed and empty. The \<^verbatim>\<open>select\<close> returns when the context is done and
  otherwise runs \<^verbatim>\<open>searchFile\<close>; a panic there ends the program. The result is sent
  only when \<^verbatim>\<open>err == nil && len(matches) > 0\<close>.
\<close>

definition workerStep :: "searcher \<Rightarrow> nat \<Rightarrow> nat \<Rightarrow> state \<Rightarrow> state option" where
  "workerStep sf cap k s =
     (if k < length (workers s) then
        (case workers s ! k of
           Receiving \<Rightarrow>
             (case jobs s of
                job # rest \<Rightarrow> Some (s\<lparr>jobs := rest, workers := (workers s)[k := Selecting job]\<rparr>)
              | [] \<Rightarrow>
                  if jobsClosed s then Some (s\<lparr>workers := (workers s)[k := Exited]\<rparr>) else None)
         | Selecting job \<Rightarrow>
             (case ctxErr s of
                Some e \<Rightarrow> Some (s\<lparr>workers := (workers s)[k := Exited]\<rparr>)
              | None \<Rightarrow>
                  (case sf (query job) (FilePath (session job)) of
                     Inl p \<Rightarrow> Some (s\<lparr>crashed := Some p\<rparr>)
                   | Inr (matches, err) \<Rightarrow>
                       if err = None \<and> length matches > 0 then
                         Some (s\<lparr>workers := (workers s)
                                  [k := Sending \<lparr>SessionID = ID (session job),
                                                 SessionIndex = sessionIndex job,
                                                 Matches = matches,
                                                 Score = real (length matches)\<rparr>]\<rparr>)
                       else Some (s\<lparr>workers := (workers s)[k := Receiving]\<rparr>)))
         | Sending result \<Rightarrow>
             if length (results s) < cap then
               Some (s\<lparr>results := results s @ [result], workers := (workers s)[k := Receiving]\<rparr>)
             else None
         | Exited \<Rightarrow> None)
      else None)"

text \<open>
  \<^verbatim>\<open>go func() { wg.Wait(); close(results) }()\<close>: started by the main goroutine after
  \<^verbatim>\<open>close(jobs)\<close>, it closes \<^verbatim>\<open>results\<close> once every worker has returned.
\<close>

definition closerStarted :: "mainpc \<Rightarrow> bool" where
  "closerStarted p = (case p of Enqueue i \<Rightarrow> False | Collect acc \<Rightarrow> True
                      | Returned rs err \<Rightarrow> err = None)"

definition closerStep :: "state \<Rightarrow> state option" where
  "closerStep s =
     (if closerStarted (pc s) \<and> \<not> resultsClosed s \<and> (\<forall>w \<in> set (workers s). w = Exited)
      then Some (s\<lparr>resultsClosed := True\<rparr>) else None)"

text \<open>
  One step of the system, \<open>None\<close> when the event is not enabled; nothing moves after a
  panic. The context gets its error once, \<^verbatim>\<open>context.Canceled\<close> or
  \<^verbatim>\<open>context.DeadlineExceeded\<close>.
\<close>

definition step :: "searcher \<Rightarrow> string \<Rightarrow> SessionInfo list \<Rightarrow> event \<Rightarrow> state \<Rightarrow> state option" where
  "step sf q sessions ev s =
     (if crashed s \<noteq> None then None
      else case ev of
             CtxDone e \<Rightarrow>
               if ctxErr s = None \<and> (e = Canceled \<or> e = DeadlineExceeded)
               then Some (s\<lparr>ctxErr := Some e\<rparr>) else None
           | MainStep takeDone \<Rightarrow> mainStep q sessions takeDone s
           | WorkerStep k \<Rightarrow> workerStep sf (length sessions) k s
           | CloserStep \<Rightarrow> closerStep s)"

fun run :: "searcher \<Rightarrow> string \<Rightarrow> SessionInfo list \<Rightarrow> event list \<Rightarrow> state \<Rightarrow> state option" where
  "run sf q sessions [] s = Some s"
| "run sf q sessions (ev # evs) s =
     (case step sf q sessions ev s of
        None \<Rightarrow> None
      | Some s' \<Rightarrow> run sf q sessions evs s')"

text \<open>
  What \<^verbatim>\<open>SearchContent\<close> has returned at the end of a schedule: \<open>None\<close> when the
  schedule is not a run of the system, or when the call has not returned by then.
\<close>

definition SearchContent ::
  "searcher \<Rightarrow> contentEngine \<Rightarrow> string \<Rightarrow> SessionInfo list \<Rightarrow> event list \<Rightarrow>
   (SearchResult list \<times> error option) option"
where
  "SearchContent sf c q sessions schedule =
     (case run sf q sessions schedule (initial c) of
        None \<Rightarrow> None
      | Some s \<Rightarrow> (case pc s of Returned rs err \<Rightarrow> Some (rs, err) | _ \<Rightarrow> None))"

text \<open>
  Vocabulary for the properties of the pool. \<open>emits sf q sessions i\<close>: the search of
  the file of session \<open>i\<close> succeeds with at least one match, so that a worker sends a
  result for it. \<open>resultOf sf q sessions i\<close> is that result.
\<close>

definition emits :: "searcher \<Rightarrow> string \<Rightarrow> SessionInfo list \<Rightarrow> nat \<Rightarrow> bool" where
  "emits sf q sessions i =
     (case sf q (FilePath (sessions ! i)) of
        Inl p \<Rightarrow> False
      | Inr (matches, err) \<Rightarrow> err = None \<and> matches \<noteq> [])"

definition resultOf :: "searcher \<Rightarrow> string \<Rightarrow> SessionInfo list \<Rightarrow> nat \<Rightarrow> SearchResult" where
  "resultOf sf q sessions i =
     (case sf q (FilePath (sessions ! i)) of
        Inl p \<Rightarrow> zeroResult
      | Inr (matches, err) \<Rightarrow>
          \<lparr>SessionID = ID (sessions ! i), SessionIndex = int i, Matches = matches,
           Score = real (length matches)\<rparr>)"

text \<open>
  The invariants of the pool are stated with tokens: the session index carried by each
  job in the \<^verbatim>\<open>jobs\<close> buffer, by each worker that holds a job or a result, by each
  result in the \<^verbatim>\<open>results\<close> buffer and by each result the main goroutine has
  collected. \<open>safe\<close> says that everything in flight is well formed (a job is the job of
  its index, a result is the result of a file that was searched with success and at
  least one match), that no index is in flight twice and none is beyond the number of
  jobs enqueued, and that an error is returned only with no results and is the
  context's error. \<open>complete\<close> says that, while the context is not done, no index of a
  file with matches has been lost, and records how the two channels are closed.
  \<open>errorsAsNoMatches sf\<close> is the searcher that answers no match, and no error,
  where \<open>sf\<close> answers an error.
\<close>

definition jobIdx :: "searchJob \<Rightarrow> nat" where
  "jobIdx job = nat (sessionIndex job)"

definition resIdx :: "SearchResult \<Rightarrow> nat" where
  "resIdx r = nat (SessionIndex r)"

definition wfJob :: "string \<Rightarrow> SessionInfo list \<Rightarrow> searchJob \<Rightarrow> bool" where
  "wfJob q sessions job =
     (0 \<le> sessionIndex job \<and> jobIdx job < length sessions \<and>
      query job = q \<and> session job = sessions ! jobIdx job)"

definition wfRes :: "searcher \<Rightarrow> string \<Rightarrow> SessionInfo list \<Rightarrow> SearchResult \<Rightarrow> bool" where
  "wfRes sf q sessions r =
     (0 \<le> SessionIndex r \<and> resIdx r < length sessions \<and>
      emits sf q sessions (resIdx r) \<and> r = resultOf sf q sessions (resIdx r))"

definition wfWorker :: "searcher \<Rightarrow> string \<Rightarrow> SessionInfo list \<Rightarrow> worker \<Rightarrow> bool" where
  "wfWorker sf q sessions w =
     (case w of Selecting job \<Rightarrow> wfJob q sessions job
              | Sending r \<Rightarrow> wfRes sf q sessions r
              | _ \<Rightarrow> True)"

definition accOf :: "mainpc \<Rightarrow> SearchResult list" where
  "accOf p = (case p of Enqueue i \<Rightarrow> [] | Collect acc \<Rightarrow> acc | Returned rs err \<Rightarrow> rs)"

definition bound :: "nat \<Rightarrow> mainpc \<Rightarrow> nat" where
  "bound n p = (case p of Enqueue i \<Rightarrow> i | _ \<Rightarrow> n)"

definition workerTokens :: "worker \<Rightarrow> nat multiset" where
  "workerTokens w =
     (case w of Selecting job \<Rightarrow> {#jobIdx job#} | Sending r \<Rightarrow> {#resIdx r#} | _ \<Rightarrow> {#})"

definition tokens :: "state \<Rightarrow> nat multiset" where
  "tokens s =
     mset (map jobIdx (jobs s)) + sum_list (map workerTokens (workers s)) +
     mset (map resIdx (results s)) + mset (map resIdx (accOf (pc s)))"

definition safe :: "searcher \<Rightarrow> string \<Rightarrow> SessionInfo list \<Rightarrow> state \<Rightarrow> bool" where
  "safe sf q sessions s =
     ((\<forall>job \<in> set (jobs s). wfJob q sessions job) \<and>
      (\<forall>w \<in> set (workers s). wfWorker sf q sessions w) \<and>
      (\<forall>r \<in> set (results s). wfRes sf q sessions r) \<and>
      (\<forall>r \<in> set (accOf (pc s)). wfRes sf q sessions r) \<and>
      tokens s \<subseteq># mset [0..<bound (length sessions) (pc s)] \<and>
      bound (length sessions) (pc s) \<le> length sessions \<and>
      (\<forall>e. ctxErr s = Some e \<longrightarrow> e = Canceled \<or> e = DeadlineExceeded) \<and>
      (\<forall>rs e. pc s = Returned rs (Some e) \<longrightarrow> rs = [] \<and> ctxErr s = Some e))"

definition complete :: "searcher \<Rightarrow> string \<Rightarrow> SessionInfo list \<Rightarrow> state \<Rightarrow> bool" where
  "complete sf q sessions s =
     ((ctxErr s = None \<longrightarrow>
         filter_mset (emits sf q sessions) (tokens s) =
         filter_mset (emits sf q sessions) (mset [0..<bound (length sessions) (pc s)])) \<and>
      (jobsClosed s = (\<forall>i. pc s \<noteq> Enqueue i)) \<and>
      (ctxErr s = None \<longrightarrow> Exited \<in> set (workers s) \<longrightarrow> jobsClosed s \<and> jobs s = []) \<and>
      (resultsClosed s \<longrightarrow> (\<forall>w \<in> set (workers s). w = Exited)) \<and>
      (\<forall>rs. pc s = Returned rs None \<longrightarrow> resultsClosed s \<and> results s = []))"

definition errorsAsNoMatches :: "searcher \<Rightarrow> searcher" where
  "errorsAsNoMatches sf q filePath =
     (case sf q filePath of
        Inl p \<Rightarrow> Inl p
      | Inr (matches, err) \<Rightarrow> Inr (if err = None then matches else [], None))"

definition mixedExec :: exec where
  "mixedExec name args =
     (if last args = ''/s/a1.jsonl'' then (demoOutput, None) else ([], Some (ExitError 2)))"

definition notFoundExec :: exec where
  "notFoundExec name args = ([], Some ErrNotFound)"

definition oauthResult :: "nat \<Rightarrow> SearchResult" where
  "oauthResult i =
     \<lparr>SessionID = ID (twoSessions ! i), SessionIndex = int i, Matches = [oauthMatch], Score = 1\<rparr>"

text \<open>Both files match; worker 1 sends its result before worker 0.\<close>

definition scheduleBoth :: "event list" where
  "scheduleBoth =
     [MainStep False, MainStep False, MainStep False,
      WorkerStep 0, WorkerStep 1, WorkerStep 1, WorkerStep 1, WorkerStep 0, WorkerStep 0,
      WorkerStep 0, WorkerStep 1, WorkerStep 2, WorkerStep 3, CloserStep,
      MainStep False, MainStep False, MainStep False]"

text \<open>The search of the second file fails; worker 1 has it.\<close>

definition scheduleOneFails :: "event list" where
  "scheduleOneFails =
     [MainStep False, MainStep False, MainStep False,
      WorkerStep 0, WorkerStep 1, WorkerStep 1, WorkerStep 1, WorkerStep 0, WorkerStep 0,
      WorkerStep 0, WorkerStep 2, WorkerStep 3, CloserStep,
      MainStep False, MainStep False]"

text \<open>The deadline passes after the first file was searched and before the second is.\<close>

definition scheduleLateDeadline :: "event list" where
  "scheduleLateDeadline =
     [MainStep False, MainStep False, MainStep False,
      WorkerStep 0, WorkerStep 0, WorkerStep 0, CtxDone DeadlineExceeded,
      WorkerStep 0, WorkerStep 0, WorkerStep 1, WorkerStep 2, WorkerStep 3, CloserStep,
      MainStep False, MainStep False]"

text \<open>
  The deadline passes while the second job is still to be enqueued, and the \<^verbatim>\<open>select\<close>
  of the enqueue loop takes the send, not \<^verbatim>\<open>ctx.Done()\<close>.
\<close>

definition scheduleDeadlineAtEnqueue :: "event list" where
  "scheduleDeadlineAtEnqueue =
     [MainStep False, CtxDone DeadlineExceeded, MainStep False, MainStep False,
      WorkerStep 0, WorkerStep 0, WorkerStep 1, WorkerStep 1, WorkerStep 2, WorkerStep 3,
      CloserStep, MainStep False]"

text \<open>
  The deadline passes after the first file was searched and while the second job is
  still to be enqueued, and the \<^verbatim>\<open>select\<close> of the enqueue loop takes \<^verbatim>\<open>ctx.Done()\<close>.
\<close>

definition scheduleDeadlineTaken :: "event list" where
  "scheduleDeadlineTaken =
     [MainStep False, WorkerStep 0, WorkerStep 0, WorkerStep 0, CtxDone DeadlineExceeded,
      MainStep True]"

text \<open>No file yields a result; worker 0 takes both jobs.\<close>

definition scheduleNoResults :: "event list" where
  "scheduleNoResults =
     [MainStep False, MainStep False, MainStep False,
      WorkerStep 0, WorkerStep 0, WorkerStep 0, WorkerStep 0, WorkerStep 0,
      WorkerStep 1, WorkerStep 2, WorkerStep 3, CloserStep, MainStep False]"

definition brokenExec :: exec where
  "brokenExec name args = ([], Some (ExitError 2))"

text \<open>
  A bound on the steps a state has left: every step but the context's own takes at
  least one away. A session not yet enqueued has five steps before it (enqueue,
  receive, select, send, collect), a job in the buffer four, and so on; each worker
  has one step to return, the main goroutine two to leave its loop and return, the
  closing goroutine one.
\<close>

definition mainWeight :: "nat \<Rightarrow> mainpc \<Rightarrow> nat" where
  "mainWeight n p =
     (case p of Enqueue i \<Rightarrow> 5 * (n - i) + 2 | Collect acc \<Rightarrow> 1 | Returned rs err \<Rightarrow> 0)"

definition workerWeight :: "worker \<Rightarrow> nat" where
  "workerWeight w =
     (case w of Receiving \<Rightarrow> 1 | Selecting job \<Rightarrow> 4 | Sending r \<Rightarrow> 3 | Exited \<Rightarrow> 0)"

definition stepsLeft :: "nat \<Rightarrow> state \<Rightarrow> nat" where
  "stepsLeft n s =
     mainWeight n (pc s) + 4 * length (jobs s) + sum_list (map workerWeight (workers s)) +
     length (results s) + (if resultsClosed s then 0 else 1) +
     (if crashed s = None then 1 else 0)"

section \<open>Properties of extractContext\<close>

lemma index_from_bounds:
  "index_from s sep i = - 1 \<or>
   (i \<le> index_from s sep i \<and> index_from s sep i + int (length sep) \<le> i + int (length s))"
proof (induction s arbitrary: i)
  case Nil
  then show ?case by simp
next
  case (Cons c cs)
  show ?case
  proof (cases "prefix sep (c # cs)")
    case True
    then have "length sep \<le> length (c # cs)" by (rule prefix_length_le)
    with True show ?thesis by simp
  next
    case False
    with Cons [of "i + 1"] show ?thesis by auto
  qed
qed

lemma strings_Index_bounds:
  "strings_Index s sep = - 1 \<or>
   (0 \<le> strings_Index s sep \<and> strings_Index s sep + int (length sep) \<le> int (length s))"
  using index_from_bounds [of s sep 0] by (simp add: strings_Index_def)

lemma lineWindow_ok:
  assumes "0 \<le> s" "s \<le> e" "e \<le> int (length line)"
  shows "lineWindow line s e = Inr (snippet 30 line s e)"
  using assms by (auto simp: lineWindow_def snippet_def slice_def Let_def max_def min_def)

lemma contentWindow_ok:
  assumes "0 \<le> pos" "pos < int (length content)" "s \<le> e"
  shows "contentWindow content pos s e = Inr (snippet 50 content pos (pos + (e - s)))"
  using assms by (auto simp: contentWindow_def snippet_def slice_def Let_def max_def min_def)

text \<open>
  The three outcomes of locating the field, each with what \<^verbatim>\<open>extractContext\<close> returns.
\<close>

lemma extractContext_no_key:
  assumes "strings_Index line contentKey = - 1"
  shows "extractContext line s e = lineWindow line s e" and "contentField line = None"
  using assms by (simp_all add: extractContext_def contentField_def strings_Contains_def)

lemma extractContext_no_quote:
  assumes "strings_Index line contentKey \<noteq> - 1"
    and "strings_Index (drop (nat (strings_Index line contentKey + int (length contentKey))) line)
           dquote = - 1"
  shows "extractContext line s e = lineWindow line s e" and "contentField line = None"
proof -
  let ?i = "strings_Index line contentKey"
  from assms(1) strings_Index_bounds [of line contentKey]
  have i: "0 \<le> ?i" "?i + int (length contentKey) \<le> int (length line)" by auto
  then have rest: "slice_from line (?i + int (length contentKey)) =
      Inr (drop (nat (?i + int (length contentKey))) line)"
    by (simp add: slice_from_def slice_def)
  show "extractContext line s e = lineWindow line s e"
    using assms i rest by (simp add: extractContext_def strings_Contains_def Let_def)
  show "contentField line = None"
    using assms i by (simp add: contentField_def Let_def)
qed

lemma extractContext_field:
  assumes "strings_Index line contentKey \<noteq> - 1"
    and cs: "cs = strings_Index line contentKey + int (length contentKey)"
    and j: "j = strings_Index (drop (nat cs) line) dquote"
    and "j \<noteq> - 1"
  shows "contentField line = Some (cs, cs + j)"
    and "0 \<le> cs" and "0 \<le> j" and "cs + j \<le> int (length line)"
    and "extractContext line s e =
          (if cs \<le> s \<and> s < cs + j
           then contentWindow (take (nat j) (drop (nat cs) line)) (s - cs) s e
           else lineWindow line s e)"
proof -
  let ?i = "strings_Index line contentKey"
  from assms(1) strings_Index_bounds [of line contentKey]
  have i: "0 \<le> ?i" "?i + int (length contentKey) \<le> int (length line)" by auto
  then show c0: "0 \<le> cs" using cs by simp
  have c1: "cs \<le> int (length line)" using i cs by simp
  have rest: "slice_from line cs = Inr (drop (nat cs) line)"
    using c0 c1 by (simp add: slice_from_def slice_def)
  from \<open>j \<noteq> - 1\<close> strings_Index_bounds [of "drop (nat cs) line" dquote]
  have "0 \<le> j \<and> j + int (length dquote) \<le> int (length (drop (nat cs) line))"
    unfolding j by auto
  then show j0: "0 \<le> j" and j1: "cs + j \<le> int (length line)" using c0 c1 by auto
  have content: "slice line cs (cs + j) = Inr (take (nat j) (drop (nat cs) line))"
    using c0 j0 j1 by (simp add: slice_def)
  show "contentField line = Some (cs, cs + j)"
    using i j0 cs j by (simp add: contentField_def Let_def)
  show "extractContext line s e =
          (if cs \<le> s \<and> s < cs + j
           then contentWindow (take (nat j) (drop (nat cs) line)) (s - cs) s e
           else lineWindow line s e)"
    using assms(1,4) i rest content cs [symmetric] j [symmetric]
    by (simp add: extractContext_def strings_Contains_def Let_def)
qed

lemma extractContext_eq:
  assumes "0 \<le> s" "s \<le> e" "e \<le> int (length line)"
  shows "extractContext line s e =
     Inr (case contentField line of
            Some (cs, ce) \<Rightarrow>
              if cs \<le> s \<and> s < ce
              then snippet 50 (take (nat (ce - cs)) (drop (nat cs) line)) (s - cs) (e - cs)
              else snippet 30 line s e
          | None \<Rightarrow> snippet 30 line s e)"
proof -
  note lw = lineWindow_ok [OF assms]
  define cs where "cs = strings_Index line contentKey + int (length contentKey)"
  define j where "j = strings_Index (drop (nat cs) line) dquote"
  consider (nokey) "strings_Index line contentKey = - 1"
    | (noquote) "strings_Index line contentKey \<noteq> - 1" "j = - 1"
    | (field) "strings_Index line contentKey \<noteq> - 1" "j \<noteq> - 1"
    by blast
  then show ?thesis
  proof cases
    case nokey
    then show ?thesis by (simp add: extractContext_no_key lw)
  next
    case noquote
    then show ?thesis
      using extractContext_no_quote(1) [of line s e] extractContext_no_quote(2) [of line]
        by (simp add: lw j_def cs_def)
  next
    case field
    note f = extractContext_field [OF field(1) cs_def j_def field(2)]
    show ?thesis
    proof (cases "cs \<le> s \<and> s < cs + j")
      case True
      have "contentWindow (take (nat j) (drop (nat cs) line)) (s - cs) s e =
            Inr (snippet 50 (take (nat j) (drop (nat cs) line)) (s - cs) ((s - cs) + (e - s)))"
        by (rule contentWindow_ok) (use True f(2-4) assms in auto)
      moreover have "(s - cs) + (e - s) = e - cs" by simp
      ultimately show ?thesis using True f(1,5) by simp
    next
      case False
      then show ?thesis using f(1,5) lw by auto
    qed
  qed
qed

text \<open>
  C10. \<^verbatim>\<open>extractContext\<close> is total on the inputs the data model allows: for every
  line and every match span with \<open>0 \<le> start \<le> end \<le> len(text)\<close>, none of its slice
  expressions is out of range (a slice out of range would make the model return a
  panic on the left), and it returns a string.
\<close>

theorem extractContext_total:
  assumes "0 \<le> matchStart" and "matchStart \<le> matchEnd" and "matchEnd \<le> int (length line)"
  shows "\<exists>result. extractContext line matchStart matchEnd = Inr result"
  using extractContext_eq [OF assms] by blast

theorem extractContext_total_witness:
  "(0::int) \<le> 60 \<and> (60::int) \<le> 65 \<and> 65 \<le> int (length oauthLine) \<and>
   (\<exists>result. extractContext oauthLine 60 65 = Inr result)"
proof -
  have h: "(0::int) \<le> 60" "(60::int) \<le> 65" "65 \<le> int (length oauthLine)"
    by (simp_all add: oauthLine_def)
  from extractContext_total [OF h] h show ?thesis by simp
qed

text \<open>
  The field the specification speaks of and the span the code computes are the same
  whenever the field's text holds no double quote (that is, no escaped one): the
  closing quote is then the first double quote after the key.
\<close>

lemma closingQuote_bounds:
  "closingQuote s i \<noteq> - 1 \<Longrightarrow> 0 \<le> i \<Longrightarrow>
   i \<le> closingQuote s i \<and> nat (closingQuote s i - i) < length s \<and>
   s ! nat (closingQuote s i - i) = CHR 0x22"
proof (induction s i rule: closingQuote.induct)
  case (1 i)
  then show ?case by simp
next
  case (2 c i)
  then show ?case by (simp split: if_splits)
next
  case (3 c d ds i)
  show ?case
  proof (cases "c = CHR 0x22")
    case True
    then show ?thesis by simp
  next
    case nq: False
    show ?thesis
    proof (cases "c = CHR 0x5C")
      case True
      with nq "3.prems" have r: "closingQuote ds (i + 2) \<noteq> - 1" by simp
      from "3.IH"(1) [OF nq True r] "3.prems"(2)
      have ih: "i + 2 \<le> closingQuote ds (i + 2)"
        "nat (closingQuote ds (i + 2) - (i + 2)) < length ds"
        "ds ! nat (closingQuote ds (i + 2) - (i + 2)) = CHR 0x22" by simp_all
      have "nat (closingQuote ds (i + 2) - i) = Suc (Suc (nat (closingQuote ds (i + 2) - (i + 2))))"
        using ih(1) by simp
      with ih nq True show ?thesis by simp
    next
      case False
      with nq "3.prems" have r: "closingQuote (d # ds) (i + 1) \<noteq> - 1" by simp
      from "3.IH"(2) [OF nq False r] "3.prems"(2)
      have ih: "i + 1 \<le> closingQuote (d # ds) (i + 1)"
        "nat (closingQuote (d # ds) (i + 1) - (i + 1)) < length (d # ds)"
        "(d # ds) ! nat (closingQuote (d # ds) (i + 1) - (i + 1)) = CHR 0x22" by simp_all
      have "nat (closingQuote (d # ds) (i + 1) - i) = Suc (nat (closingQuote (d # ds) (i + 1) - (i + 1)))"
        using ih(1) by simp
      with ih nq False show ?thesis by simp
    qed
  qed
qed

lemma index_from_single:
  "index_from s [c] i =
     (if c \<in> set s then i + int (length (takeWhile (\<lambda>x. x \<noteq> c) s)) else - 1)"
  by (induction s arbitrary: i) auto

lemma strings_Index_first:
  assumes "k < length s" "s ! k = CHR 0x22" "CHR 0x22 \<notin> set (take k s)"
  shows "strings_Index s dquote = int k"
proof -
  have "takeWhile (\<lambda>x. x \<noteq> CHR 0x22) s = take k s"
  proof (rule takeWhile_eq_take_P_nth)
    fix i assume "i < k" "i < length s"
    then have "s ! i \<in> set (take k s)" by (metis in_set_conv_nth length_take min_less_iff_conj nth_take)
    with assms(3) show "s ! i \<noteq> CHR 0x22" by auto
  next
    show "\<not> s ! k \<noteq> CHR 0x22" using assms(2) by simp
  qed
  moreover have "CHR 0x22 \<in> set s" using assms(1,2) nth_mem by fastforce
  ultimately show ?thesis using assms(1)
    by (simp add: strings_Index_def dquote_def index_from_single)
qed

lemma strings_Index_none:
  assumes "CHR 0x22 \<notin> set s"
  shows "strings_Index s dquote = - 1"
  using assms by (simp add: strings_Index_def dquote_def index_from_single)

lemma embedded_is_located:
  assumes emb: "embeddedField line = Some (cs, ce)"
    and nq: "CHR 0x22 \<notin> set (take (nat (ce - cs)) (drop (nat cs) line))"
  shows "contentField line = Some (cs, ce)"
proof -
  let ?i = "strings_Index line contentKey"
  from emb have i: "\<not> ?i < 0" by (auto simp: embeddedField_def Let_def split: if_splits)
  let ?cs = "?i + int (length contentKey)"
  let ?rest = "drop (nat ?cs) line"
  from emb i have j: "\<not> closingQuote ?rest 0 < 0" and cs: "cs = ?cs"
    and ce: "ce = ?cs + closingQuote ?rest 0"
    by (auto simp: embeddedField_def Let_def split: if_splits)
  from j have "closingQuote ?rest 0 \<noteq> - 1" by simp
  from closingQuote_bounds [OF this]
  have b: "0 \<le> closingQuote ?rest 0" "nat (closingQuote ?rest 0) < length ?rest"
    "?rest ! nat (closingQuote ?rest 0) = CHR 0x22" by simp_all
  have "nat (ce - cs) = nat (closingQuote ?rest 0)" using cs ce by simp
  with nq cs have "CHR 0x22 \<notin> set (take (nat (closingQuote ?rest 0)) ?rest)" by simp
  from strings_Index_first [OF b(2,3) this] b(1)
  have "strings_Index ?rest dquote = closingQuote ?rest 0" by simp
  with i j cs ce show ?thesis by (simp add: contentField_def Let_def)
qed

lemma absent_not_located:
  assumes "\<not> strings_Contains line contentKey"
  shows "contentField line = None"
  using assms by (simp add: contentField_def strings_Contains_def)

lemma open_not_located:
  assumes "CHR 0x22 \<notin> set (drop (nat (strings_Index line contentKey + int (length contentKey))) line)"
  shows "contentField line = None"
  using strings_Index_none [OF assms] by (simp add: contentField_def Let_def)

text \<open>
  C6, as the code has it. For a match span with \<open>0 \<le> start \<le> end \<le> len(text)\<close>
  and a line whose embedded content field, when it has one, holds no escaped double
  quote: (1) when the match span lies inside the field's span, the snippet is the
  window of 50 bytes before and after the match, cut to the field, with \<^verbatim>\<open>...\<close> in
  front iff bytes of the field before the window were left out and \<^verbatim>\<open>...\<close> behind iff
  bytes of the field after it were left out; (2) when the match starts outside the
  field's span, and (3) when the line has no content key, or no double quote follows
  the key (the content string is never closed), the snippet is the same kind of
  window, 30 bytes each side, over the whole raw line. For the raw line of the example
  and the span of \<^verbatim>\<open>OAuth\<close> in it (bytes 60 to 65), the snippet is shorter than the
  line, contains \<^verbatim>\<open>OAuth\<close> and does not contain \<^verbatim>\<open>"type":"message"\<close>.
\<close>

theorem extractContext_windows:
  assumes "0 \<le> matchStart" and "matchStart \<le> matchEnd" and "matchEnd \<le> int (length line)"
  shows \<open>(\<forall>cs ce. embeddedField line = Some (cs, ce) \<and>
              CHR 0x22 \<notin> set (take (nat (ce - cs)) (drop (nat cs) line)) \<and>
              cs \<le> matchStart \<and> matchStart < ce \<and> matchEnd \<le> ce \<longrightarrow>
            extractContext line matchStart matchEnd =
              Inr (snippet 50 (take (nat (ce - cs)) (drop (nat cs) line))
                     (matchStart - cs) (matchEnd - cs)))
       \<and> (\<forall>cs ce. embeddedField line = Some (cs, ce) \<and>
              CHR 0x22 \<notin> set (take (nat (ce - cs)) (drop (nat cs) line)) \<and>
              (matchStart < cs \<or> ce \<le> matchStart) \<longrightarrow>
            extractContext line matchStart matchEnd = Inr (snippet 30 line matchStart matchEnd))
       \<and> (\<not> strings_Contains line contentKey \<or>
          CHR 0x22 \<notin> set (drop (nat (strings_Index line contentKey + int (length contentKey))) line) \<longrightarrow>
            extractContext line matchStart matchEnd = Inr (snippet 30 line matchStart matchEnd))
       \<and> take 5 (drop 60 oauthLine) = ''OAuth''
       \<and> extractContext oauthLine 60 65 = Inr ''I need help with OAuth implementation''
       \<and> length ''I need help with OAuth implementation'' < length oauthLine
       \<and> strings_Contains ''I need help with OAuth implementation'' ''OAuth''
       \<and> \<not> strings_Contains ''I need help with OAuth implementation'' ''"type":"message"''\<close>
proof -
  note eq = extractContext_eq [OF assms]
  have a: "extractContext line matchStart matchEnd =
              Inr (snippet 50 (take (nat (ce - cs)) (drop (nat cs) line))
                     (matchStart - cs) (matchEnd - cs))"
    if "embeddedField line = Some (cs, ce)"
      "CHR 0x22 \<notin> set (take (nat (ce - cs)) (drop (nat cs) line))"
      "cs \<le> matchStart" "matchStart < ce" "matchEnd \<le> ce" for cs ce
    using eq embedded_is_located [OF that(1,2)] that(3,4) by simp
  have b: "extractContext line matchStart matchEnd = Inr (snippet 30 line matchStart matchEnd)"
    if "embeddedField line = Some (cs, ce)"
      "CHR 0x22 \<notin> set (take (nat (ce - cs)) (drop (nat cs) line))"
      "matchStart < cs \<or> ce \<le> matchStart" for cs ce
    using eq embedded_is_located [OF that(1,2)] that(3) by auto
  have c: "extractContext line matchStart matchEnd = Inr (snippet 30 line matchStart matchEnd)"
    if "\<not> strings_Contains line contentKey \<or>
          CHR 0x22 \<notin> set (drop (nat (strings_Index line contentKey + int (length contentKey))) line)"
    using eq that absent_not_located [of line] open_not_located [of line] by auto
  have "extractContext oauthLine 60 65 = Inr ''I need help with OAuth implementation''"
    by code_simp
  moreover have "take 5 (drop 60 oauthLine) = ''OAuth''"
    by (simp add: oauthLine_def)
  moreover have "length ''I need help with OAuth implementation'' < length oauthLine"
    by (simp add: oauthLine_def)
  moreover have "strings_Contains ''I need help with OAuth implementation'' ''OAuth''"
    by code_simp
  moreover have \<open>\<not> strings_Contains ''I need help with OAuth implementation'' ''"type":"message"''\<close>
    by code_simp
  ultimately show ?thesis using a b c by blast
qed

theorem extractContext_windows_witness:
  \<open>embeddedField oauthLine = Some (43, 80)
   \<and> extractContext oauthLine 60 65 = Inr ''I need help with OAuth implementation''
   \<and> extractContext oauthLine 5 9 = Inr (take 39 oauthLine @ ''...'')
   \<and> extractContext oauthLine 80 81 = Inr (''...'' @ drop 50 oauthLine)
   \<and> \<not> strings_Contains plainLine contentKey
   \<and> extractContext plainLine 27 32 = Inr plainLine
   \<and> extractContext openLine 12 17 = Inr openLine\<close>
proof -
  have emb: "embeddedField oauthLine = Some (43, 80)" by code_simp
  have nq: "CHR 0x22 \<notin> set (take (nat (80 - 43)) (drop (nat 43) oauthLine))"
    by (simp add: oauthLine_def)
  have len: "length oauthLine = 82" by (simp add: oauthLine_def)
  have plen: "length plainLine = 60" by (simp add: plainLine_def)
  have olen: "length openLine = 29" by (simp add: openLine_def)
  have nokey: "\<not> strings_Contains plainLine contentKey" by code_simp
  have okey: "strings_Index openLine contentKey = 1" by code_simp
  have onq: "CHR 0x22 \<notin> set (drop (nat (strings_Index openLine contentKey + int (length contentKey))) openLine)"
    unfolding okey by (simp add: contentKey_def openLine_def)
  have a: "extractContext oauthLine 60 65 =
      Inr (snippet 50 (take (nat (80 - 43)) (drop (nat 43) oauthLine)) (60 - 43) (65 - 43))"
    using extractContext_windows [of 60 65 oauthLine] emb nq by (simp add: len)
  have b: "extractContext oauthLine 5 9 = Inr (snippet 30 oauthLine 5 9)"
    using extractContext_windows [of 5 9 oauthLine] emb nq by (simp add: len)
  have b': "extractContext oauthLine 80 81 = Inr (snippet 30 oauthLine 80 81)"
    using extractContext_windows [of 80 81 oauthLine] emb nq by (simp add: len)
  have c: "extractContext plainLine 27 32 = Inr (snippet 30 plainLine 27 32)"
    using extractContext_windows [of 27 32 plainLine] nokey by (simp add: plen)
  have d: "extractContext openLine 12 17 = Inr (snippet 30 openLine 12 17)"
    using extractContext_windows [of 12 17 openLine] onq by (simp add: olen)
  have "snippet 50 (take (nat (80 - 43)) (drop (nat 43) oauthLine)) (60 - 43) (65 - 43) =
      ''I need help with OAuth implementation''"
    by (simp add: snippet_def oauthLine_def)
  moreover have "snippet 30 oauthLine 5 9 = take 39 oauthLine @ ''...''"
    by (simp add: snippet_def len)
  moreover have "snippet 30 oauthLine 80 81 = ''...'' @ drop 50 oauthLine"
    by (simp add: snippet_def len)
  moreover have "snippet 30 plainLine 27 32 = plainLine"
    by (simp add: snippet_def plen)
  moreover have "snippet 30 openLine 12 17 = openLine"
    by (simp add: snippet_def olen)
  ultimately show ?thesis using a b b' c d emb nokey by simp
qed

text \<open>
  The claim as the specification words it fails on the ellipses. In the example line
  the field spans bytes 43 to 80; the window of 50 bytes around \<^verbatim>\<open>OAuth\<close> (bytes 60 to
  65) is clipped at both edges of the field, so the specification asks for an ellipsis
  on both sides, and the code writes none: nothing of the field was left out. For the
  span 5 to 9 of the same line, outside the field, the window over the raw line is
  clipped at the left edge of the line and not at the right one: the specification
  asks for the ellipsis in front, the code writes it behind.
\<close>

theorem extractContext_spec_counterexample:
  \<open>embeddedField oauthLine = Some (43, 80)
   \<and> extractContext_spec oauthLine 60 65 = ''...I need help with OAuth implementation...''
   \<and> extractContext oauthLine 60 65 = Inr ''I need help with OAuth implementation''
   \<and> extractContext oauthLine 60 65 \<noteq> Inr (extractContext_spec oauthLine 60 65)
   \<and> extractContext_spec oauthLine 5 9 = ''...'' @ take 39 oauthLine
   \<and> extractContext oauthLine 5 9 = Inr (take 39 oauthLine @ ''...'')
   \<and> extractContext oauthLine 5 9 \<noteq> Inr (extractContext_spec oauthLine 5 9)\<close>
proof -
  have emb: "embeddedField oauthLine = Some (43, 80)" by code_simp
  have a: "extractContext_spec oauthLine 60 65 = ''...I need help with OAuth implementation...''"
    by code_simp
  have b: "extractContext oauthLine 60 65 = Inr ''I need help with OAuth implementation''"
    by code_simp
  have c: "extractContext_spec oauthLine 5 9 = ''...'' @ take 39 oauthLine" by code_simp
  have d: "extractContext oauthLine 5 9 = Inr (take 39 oauthLine @ ''...'')" by code_simp
  have e: "''...'' @ take 39 oauthLine \<noteq> take 39 oauthLine @ ''...''"
    by (simp add: oauthLine_def)
  from emb a b c d e show ?thesis by simp
qed

text \<open>
  The guard of \<^verbatim>\<open>extractContext\<close> compares only the start of the match with the
  field's span. In \<^verbatim>\<open>{"content":"abc","role":"user"}\<close> the field spans bytes 12 to 15,
  and for the span 13 to 19, which begins in the field and ends after it, the result
  is the field window.
\<close>

lemma extractContext_straddle:
  \<open>embeddedField straddleLine = Some (12, 15)
   \<and> take 6 (drop 13 straddleLine) = ''bc","r''
   \<and> extractContext straddleLine 13 19 = Inr ''abc''\<close>
  by code_simp

section \<open>Properties of searchFile\<close>

lemma parseLines_skip:
  "\<not> isMatchRecord um l \<Longrightarrow> parseLines um (l # ls) acc = parseLines um ls acc"
  by (simp add: isMatchRecord_def split: option.splits)

lemma parseLines_filter:
  "parseLines um ls acc = parseLines um (filter (isMatchRecord um) ls) acc"
proof (induction ls arbitrary: acc)
  case Nil
  show ?case by simp
next
  case (Cons l ls)
  show ?case
  proof (cases "isMatchRecord um l")
    case False
    then have "parseLines um (l # ls) acc = parseLines um ls acc" by (rule parseLines_skip)
    with False Cons show ?thesis by (simp del: parseLines.simps)
  next
    case True
    then obtain result where r: "um l = Some result" "jget result ''type'' = JStr ''match''"
      by (auto simp: isMatchRecord_def split: option.splits)
    show ?thesis using True r Cons
      by (simp split: json.splits sum.splits)
  qed
qed

lemma submatchOf_full:
  assumes "jget data ''submatches'' = JArr (JObj submatch # others)"
    and "jget submatch ''start'' = JNum start"
    and "jget submatch ''end'' = JNum end'"
  shows "submatchOf data m =
           (m\<lparr>StartOffset := go_int start, EndOffset := go_int end'\<rparr>,
            go_int start, go_int end', True)"
  using assms by (simp add: submatchOf_def)

lemma matchOfData_full:
  assumes "jget data ''line_number'' = JNum lineNumber"
    and "jget data ''lines'' = JObj lines"
    and "jget lines ''text'' = JStr line"
    and "jget data ''submatches'' = JArr (JObj submatch # others)"
    and "jget submatch ''start'' = JNum start"
    and "jget submatch ''end'' = JNum end'"
    and "extractContext line (go_int start) (go_int end') = Inr snip"
  shows "matchOfData data =
           Inr \<lparr>Text = line, LineNumber = go_int lineNumber, StartOffset = go_int start,
                EndOffset = go_int end', Context = snip\<rparr>"
  using assms(1-3,7) submatchOf_full [OF assms(4-6)]
  by (simp add: matchOfData_def zeroMatch_def)

text \<open>
  C7. Whatever the query and the file: when the tool exits with status 1,
  \<^verbatim>\<open>searchFile\<close> returns the empty (\<^verbatim>\<open>nil\<close>) match list and the \<^verbatim>\<open>nil\<close> error.
\<close>

theorem searchFile_exit_status_1:
  assumes "exec (rgPath c) (rgArgs q filePath) = (out, Some (ExitError 1))"
  shows "searchFile exec um c q filePath = Inr ([], None)"
  using assms by (simp add: searchFile_def)

theorem searchFile_exit_status_1_witness:
  "searchFile demoExecNoMatch demoUnmarshal demoEngine ''OAuth'' ''/s/a1.jsonl'' = Inr ([], None)"
  by (rule searchFile_exit_status_1 [where out = "''partial output''"])
     (simp add: demoExecNoMatch_def)

text \<open>
  Over the lines that the scanner delivers, \<^verbatim>\<open>searchFile\<close> reads one line after the
  other, and the result is the same as reading only those that decode to a record
  whose \<^verbatim>\<open>type\<close> is \<^verbatim>\<open>"match"\<close>: a line that does not decode, and a record of any
  other kind, adds nothing and does not stop the loop. A match record with a line
  number, a line text and a first submatch whose start and end are offsets into that
  text adds one \<^verbatim>\<open>Match\<close> with exactly these (and the context extracted from
  them), and the loop goes on with the lines after it.
\<close>

lemma searchFile_scanned_lines:
  assumes "exec (rgPath c) (rgArgs q filePath) = (out, None)"
    and "um l = Some result"
    and "jget result ''type'' = JStr ''match''"
    and "jget result ''data'' = JObj data"
    and "jget data ''line_number'' = JNum lineNumber"
    and "jget data ''lines'' = JObj lines"
    and "jget lines ''text'' = JStr line"
    and "jget data ''submatches'' = JArr (JObj submatch # others)"
    and "jget submatch ''start'' = JNum start"
    and "jget submatch ''end'' = JNum end'"
    and "0 \<le> go_int start" and "go_int start \<le> go_int end'"
    and "go_int end' \<le> int (length line)"
    and "extractContext line (go_int start) (go_int end') = Inr snip"
  shows "searchFile exec um c q filePath =
           (case parseLines um (filter (isMatchRecord um) (scanLines out)) [] of
              Inl p \<Rightarrow> Inl p
            | Inr matches \<Rightarrow> Inr (matches, None))
       \<and> parseLines um (l # rest) acc =
           parseLines um rest
             (acc @ [\<lparr>Text = line, LineNumber = go_int lineNumber, StartOffset = go_int start,
                      EndOffset = go_int end', Context = snip\<rparr>])"
proof -
  have "searchFile exec um c q filePath =
          (case parseLines um (scanLines out) [] of
             Inl p \<Rightarrow> Inl p
           | Inr matches \<Rightarrow> Inr (matches, None))"
    using assms(1) by (simp add: searchFile_def)
  moreover have "parseLines um (scanLines out) [] =
      parseLines um (filter (isMatchRecord um) (scanLines out)) []"
    by (rule parseLines_filter)
  ultimately show ?thesis
    using assms(2-4) matchOfData_full [OF assms(5-10) assms(14)] by simp
qed

lemma searchFile_scanned_lines_example:
  "scanLines demoOutput = [''garbage'', ''B'', ''M'', ''{''] \<and>
   filter (isMatchRecord demoUnmarshal) (scanLines demoOutput) = [''M''] \<and>
   searchFile demoExec demoUnmarshal demoEngine ''OAuth'' ''/s/a1.jsonl'' = Inr ([oauthMatch], None)"
proof -
  have ec: "extractContext oauthLine 60 65 = Inr ''I need help with OAuth implementation''"
    by code_simp
  have len: "length oauthLine = 82" by (simp add: oauthLine_def)
  have sc: "scanLines demoOutput = [''garbage'', ''B'', ''M'', ''{'']"
    by (simp add: scanLines_def demoOutput_def maxScanTokenSize_def dropCR_def)
  have f: "filter (isMatchRecord demoUnmarshal) [''garbage'', ''B'', ''M'', ''{''] = [''M'']"
    by (simp add: isMatchRecord_def demoUnmarshal_def demoRecord_def jget_def)
  have g: "go_int 60 = 60" "go_int 65 = 65" "go_int 1 = 1" by (simp_all add: go_int_def Let_def)
  note t = searchFile_scanned_lines [where exec = demoExec and c = demoEngine and q = "''OAuth''"
      and filePath = "''/s/a1.jsonl''" and out = demoOutput
      and um = demoUnmarshal and l = "''M''" and result = demoRecord
      and data = demoData
      and lineNumber = 1 and lines = "[(''text'', JStr oauthLine)]" and line = oauthLine
      and submatch = "[(''start'', JNum 60), (''end'', JNum 65)]" and others = "[]"
      and start = 60 and end' = 65 and snip = "''I need help with OAuth implementation''"
      and acc = "[]" and rest = "[]"]
  have "searchFile demoExec demoUnmarshal demoEngine ''OAuth'' ''/s/a1.jsonl'' =
           (case parseLines demoUnmarshal
                   (filter (isMatchRecord demoUnmarshal) (scanLines demoOutput)) [] of
              Inl p \<Rightarrow> Inl p
            | Inr matches \<Rightarrow> Inr (matches, None))
      \<and> parseLines demoUnmarshal [''M''] [] =
          parseLines demoUnmarshal []
           ([] @ [\<lparr>Text = oauthLine, LineNumber = go_int 1, StartOffset = go_int 60,
                    EndOffset = go_int 65,
                    Context = ''I need help with OAuth implementation''\<rparr>])"
    by (rule t)
       (simp_all add: demoExec_def demoUnmarshal_def demoRecord_def demoData_def jget_def ec g len)
  then have "searchFile demoExec demoUnmarshal demoEngine ''OAuth'' ''/s/a1.jsonl'' =
      Inr ([oauthMatch], None)"
    by (simp only: sc f g) (simp add: oauthMatch_def)
  with sc f show ?thesis by simp
qed

text \<open>
  The scanner keeps its default buffer: a line of \<^verbatim>\<open>MaxScanTokenSize\<close> bytes or more
  ends the scan, and neither that line nor any line after it is read.
\<close>

lemma demo_extract:
  "extractContext oauthLine 60 65 = Inr ''I need help with OAuth implementation''"
  by code_simp

lemma demo_scan: "scanLines demoOutput = [''garbage'', ''B'', ''M'', ''{'']"
  by (simp add: scanLines_def demoOutput_def maxScanTokenSize_def dropCR_def)

lemma demo_parse: "parseLines demoUnmarshal (scanLines demoOutput) [] = Inr [oauthMatch]"
  by (simp add: demo_scan demoUnmarshal_def demoRecord_def demoData_def jget_def matchOfData_def
      submatchOf_def zeroMatch_def go_int_def Let_def demo_extract oauthMatch_def)

lemma demo_searchFile:
  "searchFile demoExec demoUnmarshal demoEngine q' p = Inr ([oauthMatch], None)"
  by (simp add: searchFile_def demoExec_def demo_parse)

lemma splitLines_line:
  "CHR 0x0A \<notin> set l \<Longrightarrow> splitLines (l @ CHR 0x0A # rest) cur = (cur @ l) # splitLines rest []"
  by (induction l arbitrary: cur) auto

lemma splitLines_append:
  "splitLines (before @ CHR 0x0A # rest) cur =
     splitLines (before @ [CHR 0x0A]) cur @ splitLines rest []"
  by (induction before arbitrary: cur) auto

lemma scanLines_long_line:
  assumes "CHR 0x0A \<notin> set l" and "maxScanTokenSize \<le> length l"
  shows "scanLines (l @ CHR 0x0A # rest) = []"
    and "scanLines (before @ CHR 0x0A # l @ CHR 0x0A # rest) = scanLines (before @ [CHR 0x0A])"
proof -
  have l: "splitLines (l @ CHR 0x0A # rest) [] = l # splitLines rest []"
    using assms(1) splitLines_line [of l rest "[]"] by simp
  with assms(2) show "scanLines (l @ CHR 0x0A # rest) = []"
    by (simp add: scanLines_def)
  have "splitLines (before @ CHR 0x0A # l @ CHR 0x0A # rest) [] =
      splitLines (before @ [CHR 0x0A]) [] @ l # splitLines rest []"
    using splitLines_append [of before "l @ CHR 0x0A # rest" "[]"] l by simp
  with assms(2) show "scanLines (before @ CHR 0x0A # l @ CHR 0x0A # rest) =
      scanLines (before @ [CHR 0x0A])"
    by (auto simp: scanLines_def takeWhile_append takeWhile_eq_all_conv [THEN iffD2])
qed

lemma long_not_short: "replicate 65536 c \<noteq> [d]"
proof
  assume "replicate 65536 c = [d]"
  then have "length (replicate 65536 c) = length [d]" by (rule arg_cong)
  then show False by simp
qed

lemma long_unmarshal: "demoUnmarshal (replicate 65536 (CHR ''x'')) = None"
  using long_not_short [of "CHR ''x''" "CHR ''M''"] long_not_short [of "CHR ''x''" "CHR ''B''"]
  by (simp add: demoUnmarshal_def)

lemma long_outputLines: "outputLines longOutput = [replicate 65536 (CHR ''x''), ''M'']"
proof -
  have "CHR 0x0A \<notin> set (replicate 65536 (CHR ''x''))" by simp
  from splitLines_line [OF this, of "''M'' @ [CHR 0x0A]" "[]"]
  have "splitLines longOutput [] = [replicate 65536 (CHR ''x''), ''M'']"
    by (simp add: longOutput_def)
  moreover have "dropCR (replicate 65536 (CHR ''x'')) = replicate 65536 (CHR ''x'')"
    by (simp add: dropCR_def last_replicate)
  ultimately show ?thesis by (simp add: outputLines_def dropCR_def)
qed

lemma long_scanLines: "scanLines longOutput = []"
proof -
  have "CHR 0x0A \<notin> set (replicate 65536 (CHR ''x''))" by simp
  moreover have "maxScanTokenSize \<le> length (replicate 65536 (CHR ''x''))"
    by (simp add: maxScanTokenSize_def)
  ultimately have "scanLines (replicate 65536 (CHR ''x'') @ CHR 0x0A # ''M'' @ [CHR 0x0A]) = []"
    by (rule scanLines_long_line(1))
  then show ?thesis by (simp add: longOutput_def)
qed

lemma M_parse: "parseLines demoUnmarshal [''M''] [] = Inr [oauthMatch]"
  by (simp add: demoUnmarshal_def demoRecord_def demoData_def jget_def matchOfData_def
      submatchOf_def zeroMatch_def go_int_def Let_def demo_extract oauthMatch_def)

text \<open>
  C9 does not hold of \<^verbatim>\<open>searchFile\<close> for every output of the tool. The output here
  has a first line of 65536 bytes that is no JSON document, then a match record.
  Skipping the line that fails to parse and going on with the next one, over all the
  lines of the output, yields the match of the record; \<^verbatim>\<open>searchFile\<close> returns no
  match and the \<^verbatim>\<open>nil\<close> error, because \<^verbatim>\<open>scanner.Scan()\<close> returns false at the long
  line and \<^verbatim>\<open>scanner.Err()\<close> is never looked at. When the line that fails to parse is
  short, as in the other output, it is skipped and the match record after it is read.
\<close>

theorem searchFile_long_line:
  "demoUnmarshal (replicate 65536 (CHR ''x'')) = None
   \<and> isMatchRecord demoUnmarshal ''M''
   \<and> outputLines longOutput = [replicate 65536 (CHR ''x''), ''M'']
   \<and> parseLines demoUnmarshal (outputLines longOutput) [] = Inr [oauthMatch]
   \<and> scanLines longOutput = []
   \<and> searchFile longExec demoUnmarshal demoEngine ''OAuth'' ''/s/a1.jsonl'' = Inr ([], None)
   \<and> outputLines demoOutput = [''garbage'', ''B'', ''M'', ''{'']
   \<and> searchFile demoExec demoUnmarshal demoEngine ''OAuth'' ''/s/a1.jsonl'' =
       Inr ([oauthMatch], None)"
proof -
  have a: "isMatchRecord demoUnmarshal ''M''"
    by (simp add: isMatchRecord_def demoUnmarshal_def demoRecord_def jget_def)
  have b: "parseLines demoUnmarshal (outputLines longOutput) [] = Inr [oauthMatch]"
    using M_parse by (simp add: long_outputLines long_unmarshal)
  have c: "searchFile longExec demoUnmarshal demoEngine ''OAuth'' ''/s/a1.jsonl'' = Inr ([], None)"
    by (simp add: searchFile_def longExec_def long_scanLines)
  have d: "outputLines demoOutput = [''garbage'', ''B'', ''M'', ''{'']"
    by (simp add: outputLines_def demoOutput_def dropCR_def)
  from long_unmarshal a long_outputLines b long_scanLines c d demo_searchFile
  show ?thesis by simp
qed

section \<open>Properties of Filter\<close>

lemma fillResults_enumerate:
  "k + length xs \<le> length rs \<Longrightarrow>
   fillResults (enumerate k xs) rs =
     Inr (take k rs @
          map (\<lambda>(i, s). zeroResult\<lparr>SessionID := ID s, SessionIndex := int i, Score := 1\<rparr>)
            (enumerate k xs) @
          drop (k + length xs) rs)"
proof (induction xs arbitrary: k rs)
  case Nil
  then show ?case by simp
next
  case (Cons x xs)
  let ?v = "zeroResult\<lparr>SessionID := ID x, SessionIndex := int k, Score := 1\<rparr>"
  from Cons.prems have k: "k < length rs" by simp
  have "Suc k + length xs \<le> length (rs[k := ?v])" using Cons.prems by simp
  from Cons.IH [OF this] k show ?case
    by (simp add: take_Suc_conv_app_nth)
qed

lemma map_enumerate_nth:
  "map (\<lambda>(i, s). f i s) (enumerate 0 xs) = map (\<lambda>i. f i (xs ! i)) [0..<length xs]"
  by (rule nth_equalityI) (simp_all add: nth_enumerate_eq)

lemma collectMatches_map:
  "\<forall>m \<in> set ms. 0 \<le> Index m \<and> Index m < int (length sessions) \<Longrightarrow>
   collectMatches sessions ms acc = Inr (acc @ map (resultOfMatch sessions) ms)"
  by (induction ms arbitrary: acc) (simp_all add: resultOfMatch_def)

text \<open>
  C5. For every session collection, \<^verbatim>\<open>Filter\<close> with the empty query returns one
  \<^verbatim>\<open>SearchResult\<close> per session, in input order: the result at position \<open>i\<close> has the
  \<^verbatim>\<open>ID\<close> of session \<open>i\<close>, \<^verbatim>\<open>SessionIndex\<close> \<open>i\<close>, \<^verbatim>\<open>Score\<close> 1.0 and no \<^verbatim>\<open>Matches\<close>.
\<close>

theorem Filter_empty_query:
  "Filter findFrom format [] sessions =
     Inr (map (\<lambda>i. \<lparr>SessionID = ID (sessions ! i), SessionIndex = int i, Matches = [],
                     Score = 1\<rparr>)
            [0..<length sessions])"
proof -
  have "fillResults (enumerate 0 sessions) (replicate (length sessions) zeroResult) =
     Inr (map (\<lambda>(i, s). zeroResult\<lparr>SessionID := ID s, SessionIndex := int i, Score := 1\<rparr>)
            (enumerate 0 sessions))"
    using fillResults_enumerate [of 0 sessions "replicate (length sessions) zeroResult"] by simp
  then show ?thesis
    by (simp add: Filter_def map_enumerate_nth zeroResult_def)
qed

theorem Filter_empty_query_witness:
  "Filter tiedMatcher demoFormat [] twoSessions =
     Inr [\<lparr>SessionID = ''a1'', SessionIndex = 0, Matches = [], Score = 1\<rparr>,
          \<lparr>SessionID = ''a2'', SessionIndex = 1, Matches = [], Score = 1\<rparr>]"
  using Filter_empty_query [of tiedMatcher demoFormat twoSessions]
  by (simp add: twoSessions_def upt_rec)

text \<open>
  C3, as the code has it. For a non-empty query (and a matcher whose indexes are
  positions of the session collection, as \<^verbatim>\<open>sessions[match.Index]\<close> needs),
  \<^verbatim>\<open>Filter\<close> returns the matcher's matches converted one by one, in the matcher's
  order: it sorts nothing. So its result is ordered by score descending and position
  ascending exactly when the matcher's list is.
\<close>

theorem Filter_matcher_order:
  assumes "q \<noteq> []"
    and "\<forall>m \<in> set (findFrom q
                      (map (sessionSource_String format sessions) [0..<length sessions])).
           0 \<le> Index m \<and> Index m < int (length sessions)"
  shows "Filter findFrom format q sessions =
           Inr (map (resultOfMatch sessions)
                  (findFrom q
                     (map (sessionSource_String format sessions) [0..<length sessions])))
       \<and> (ranked (map (resultOfMatch sessions)
                  (findFrom q
                     (map (sessionSource_String format sessions) [0..<length sessions])))
          = sorted_wrt matchRankedBefore
              (findFrom q
                 (map (sessionSource_String format sessions) [0..<length sessions])))"
proof -
  have "rankedBefore (resultOfMatch sessions a) (resultOfMatch sessions b) = matchRankedBefore a b"
    for a b
    by (simp add: rankedBefore_def matchRankedBefore_def resultOfMatch_def)
  then have "ranked (map (resultOfMatch sessions) ms) = sorted_wrt matchRankedBefore ms" for ms
    by (simp add: ranked_def sorted_wrt_map)
  with assms collectMatches_map [OF assms(2), of "[]"] show ?thesis
    by (simp add: Filter_def)
qed

theorem Filter_matcher_order_witness:
  "Filter tiedMatcher demoFormat ''a'' twoSessions = Inr tiedResults"
proof -
  have "Filter tiedMatcher demoFormat ''a'' twoSessions =
      Inr (map (resultOfMatch twoSessions)
             (tiedMatcher ''a''
                (map (sessionSource_String demoFormat twoSessions) [0..<length twoSessions])))"
    using Filter_matcher_order [of "''a''" tiedMatcher demoFormat twoSessions]
    by (simp add: tiedMatcher_def twoSessions_def)
  then show ?thesis
    by (simp add: tiedMatcher_def twoSessions_def resultOfMatch_def matchIndices_def
        zeroMatch_def tiedResults_def)
qed

text \<open>
  The claim as the specification words it fails: a matcher that reports two matches
  of equal score, the session at position 1 before the session at position 0, gets
  them back in that order, which is not the order by ascending position.
\<close>

theorem Filter_ranked_counterexample:
  "Filter tiedMatcher demoFormat ''a'' twoSessions = Inr tiedResults \<and> \<not> ranked tiedResults"
  by (simp add: Filter_def tiedMatcher_def twoSessions_def matchIndices_def zeroMatch_def
      ranked_def rankedBefore_def tiedResults_def)

section \<open>Invariants of the worker pool\<close>

lemma sum_list_map_update:
  fixes f :: "'a \<Rightarrow> 'b::comm_monoid_add"
  shows "k < length ws \<Longrightarrow>
    sum_list (map f (ws[k := w])) + f (ws ! k) = sum_list (map f ws) + f w"
proof (induction ws arbitrary: k)
  case Nil
  then show ?case by simp
next
  case (Cons a ws)
  show ?case
  proof (cases k)
    case 0
    then show ?thesis by (simp add: ac_simps)
  next
    case (Suc j)
    with Cons.prems have "j < length ws" by simp
    from Cons.IH [OF this] Suc show ?thesis
      by (simp add: ac_simps)
  qed
qed

lemma worker_tokens_update:
  assumes "k < length ws"
  shows "sum_list (map workerTokens (ws[k := w])) + workerTokens (ws ! k) =
         sum_list (map workerTokens ws) + workerTokens w"
  using assms by (rule sum_list_map_update)

lemma sum_list_replicate_empty: "sum_list (replicate n ({#} :: nat multiset)) = {#}"
  by (induction n) simp_all

lemma safe_initial: "safe sf q sessions (initial c)"
  by (simp add: safe_def initial_def tokens_def accOf_def bound_def wfWorker_def workerTokens_def
      sum_list_replicate_empty)

text \<open>How each kind of step changes the tokens.\<close>

lemma tokens_ctxErr [simp]: "tokens (s\<lparr>ctxErr := x\<rparr>) = tokens s"
  by (simp add: tokens_def)

lemma tokens_resultsClosed [simp]: "tokens (s\<lparr>resultsClosed := x\<rparr>) = tokens s"
  by (simp add: tokens_def)

lemma tokens_jobsClosed [simp]: "tokens (s\<lparr>jobsClosed := x\<rparr>) = tokens s"
  by (simp add: tokens_def)

lemma tokens_crashed [simp]: "tokens (s\<lparr>crashed := x\<rparr>) = tokens s"
  by (simp add: tokens_def)

lemma tokens_receive:
  assumes "k < length (workers s)" "workers s ! k = Receiving" "jobs s = job # rest"
  shows "tokens (s\<lparr>jobs := rest, workers := (workers s)[k := Selecting job]\<rparr>) = tokens s"
  using worker_tokens_update [OF assms(1), of "Selecting job"] assms(2,3)
  by (simp add: tokens_def workerTokens_def)

lemma tokens_drop_job:
  assumes "k < length (workers s)" "workers s ! k = Selecting job" "w = Exited \<or> w = Receiving"
  shows "tokens (s\<lparr>workers := (workers s)[k := w]\<rparr>) + {#jobIdx job#} = tokens s"
  using worker_tokens_update [OF assms(1), of w] assms(2,3)
  by (auto simp add: tokens_def workerTokens_def)

lemma tokens_exit:
  assumes "k < length (workers s)" "workers s ! k = Receiving"
  shows "tokens (s\<lparr>workers := (workers s)[k := Exited]\<rparr>) = tokens s"
  using worker_tokens_update [OF assms(1), of Exited] assms(2)
  by (simp add: tokens_def workerTokens_def)

lemma tokens_found:
  assumes "k < length (workers s)" "workers s ! k = Selecting job" "resIdx r = jobIdx job"
  shows "tokens (s\<lparr>workers := (workers s)[k := Sending r]\<rparr>) = tokens s"
  using worker_tokens_update [OF assms(1), of "Sending r"] assms(2,3)
  by (simp add: tokens_def workerTokens_def)

lemma tokens_send:
  assumes "k < length (workers s)" "workers s ! k = Sending r"
  shows "tokens (s\<lparr>results := results s @ [r], workers := (workers s)[k := Receiving]\<rparr>) = tokens s"
  using worker_tokens_update [OF assms(1), of Receiving] assms(2)
  by (simp add: tokens_def workerTokens_def)

lemma tokens_enqueue:
  assumes "pc s = Enqueue i"
  shows "tokens (s\<lparr>jobs := jobs s @ [job], pc := Enqueue i'\<rparr>) = tokens s + {#jobIdx job#}"
  using assms by (simp add: tokens_def accOf_def)

lemma tokens_leave_loop:
  assumes "pc s = Enqueue i" "p = Collect [] \<or> p = Returned [] err"
  shows "tokens (s\<lparr>jobsClosed := True, pc := p\<rparr>) = tokens s"
  using assms by (auto simp add: tokens_def accOf_def)

lemma tokens_collect_keep:
  assumes "pc s = Collect acc" "results s = r # rest"
  shows "tokens (s\<lparr>results := rest, pc := Collect (acc @ [r])\<rparr>) = tokens s"
  using assms by (simp add: tokens_def accOf_def)

lemma tokens_collect_drop:
  assumes "pc s = Collect acc" "results s = r # rest"
  shows "tokens (s\<lparr>results := rest, pc := Collect acc\<rparr>) + {#resIdx r#} = tokens s"
  using assms by (simp add: tokens_def accOf_def)

lemma tokens_return:
  assumes "pc s = Collect acc"
  shows "tokens (s\<lparr>pc := Returned acc None\<rparr>) = tokens s"
  using assms by (simp add: tokens_def accOf_def)

lemma mainStep_Enqueue_cases:
  assumes st: "mainStep q sessions takeDone s = Some s'" and pc: "pc s = Enqueue i"
    and le: "i \<le> length sessions"
  obtains (cancel) e where "i < length sessions" "takeDone" "ctxErr s = Some e"
        "s' = s\<lparr>jobsClosed := True, pc := Returned [] (Some e)\<rparr>"
      | (send) "i < length sessions" "\<not> takeDone" "length (jobs s) < length sessions"
        "s' = s\<lparr>jobs := jobs s @ [\<lparr>query = q, session = sessions ! i, sessionIndex = int i\<rparr>],
                pc := Enqueue (i + 1)\<rparr>"
      | (leave) "i = length sessions" "s' = s\<lparr>jobsClosed := True, pc := Collect []\<rparr>"
proof (cases "i < length sessions")
  case False
  with le have "i = length sessions" by simp
  moreover from st pc False have "s' = s\<lparr>jobsClosed := True, pc := Collect []\<rparr>"
    by (simp add: mainStep_def)
  ultimately show ?thesis by (rule leave)
next
  case True
  show ?thesis
  proof (cases takeDone)
    case td: True
    show ?thesis
    proof (cases "ctxErr s")
      case None
      with st pc True td show ?thesis by (simp add: mainStep_def)
    next
      case (Some e)
      with st pc True td have "s' = s\<lparr>jobsClosed := True, pc := Returned [] (Some e)\<rparr>"
        by (simp add: mainStep_def)
      with True td Some show ?thesis by (rule cancel)
    qed
  next
    case nd: False
    show ?thesis
    proof (cases "length (jobs s) < length sessions")
      case False
      with st pc True nd show ?thesis by (simp add: mainStep_def)
    next
      case room: True
      with st pc True nd
      have "s' = s\<lparr>jobs := jobs s @ [\<lparr>query = q, session = sessions ! i, sessionIndex = int i\<rparr>],
                pc := Enqueue (i + 1)\<rparr>"
        by (simp add: mainStep_def)
      with True nd room show ?thesis by (rule send)
    qed
  qed
qed

lemma mainStep_Collect_cases:
  assumes st: "mainStep q sessions takeDone s = Some s'" and pc: "pc s = Collect acc"
  obtains (keep) r rest where "results s = r # rest" "Matches r \<noteq> []"
        "s' = s\<lparr>results := rest, pc := Collect (acc @ [r])\<rparr>"
      | (drop) r rest where "results s = r # rest" "Matches r = []"
        "s' = s\<lparr>results := rest, pc := Collect acc\<rparr>"
      | (return) "results s = []" "resultsClosed s" "s' = s\<lparr>pc := Returned acc None\<rparr>"
proof (cases "results s")
  case Nil
  show ?thesis
  proof (cases "resultsClosed s")
    case True
    with st pc Nil have "s' = s\<lparr>pc := Returned acc None\<rparr>" by (simp add: mainStep_def)
    with Nil True show ?thesis by (rule return)
  next
    case False
    with st pc Nil show ?thesis by (simp add: mainStep_def)
  qed
next
  case (Cons r rest)
  show ?thesis
  proof (cases "Matches r = []")
    case True
    with st pc Cons have "s' = s\<lparr>results := rest, pc := Collect acc\<rparr>"
      by (simp add: mainStep_def)
    with Cons True show ?thesis by (rule drop)
  next
    case False
    with st pc Cons have "s' = s\<lparr>results := rest, pc := Collect (acc @ [r])\<rparr>"
      by (simp add: mainStep_def)
    with Cons False show ?thesis by (rule keep)
  qed
qed

lemma mset_upt_mono: "i \<le> n \<Longrightarrow> mset [0..<i] \<subseteq># mset [0..<n]"
proof -
  assume "i \<le> n"
  then have "[0..<n] = [0..<i] @ [i..<n]"
    using upt_add_eq_append [of 0 i "n - i"] by simp
  then have "mset [0..<n] = mset [0..<i] + mset [i..<n]"
    by (simp only: mset_append [symmetric])
  then show ?thesis by simp
qed

lemma safeD:
  assumes "safe sf q sessions s"
  shows "\<forall>job \<in> set (jobs s). wfJob q sessions job"
    and "\<forall>w \<in> set (workers s). wfWorker sf q sessions w"
    and "\<forall>r \<in> set (results s). wfRes sf q sessions r"
    and "\<forall>r \<in> set (accOf (pc s)). wfRes sf q sessions r"
    and "tokens s \<subseteq># mset [0..<bound (length sessions) (pc s)]"
    and "bound (length sessions) (pc s) \<le> length sessions"
    and "\<forall>e. ctxErr s = Some e \<longrightarrow> e = Canceled \<or> e = DeadlineExceeded"
    and "\<forall>rs e. pc s = Returned rs (Some e) \<longrightarrow> rs = [] \<and> ctxErr s = Some e"
  using assms unfolding safe_def by blast+

lemma safeI:
  assumes "\<forall>job \<in> set (jobs s). wfJob q sessions job"
    and "\<forall>w \<in> set (workers s). wfWorker sf q sessions w"
    and "\<forall>r \<in> set (results s). wfRes sf q sessions r"
    and "\<forall>r \<in> set (accOf (pc s)). wfRes sf q sessions r"
    and "tokens s \<subseteq># mset [0..<bound (length sessions) (pc s)]"
    and "bound (length sessions) (pc s) \<le> length sessions"
    and "\<forall>e. ctxErr s = Some e \<longrightarrow> e = Canceled \<or> e = DeadlineExceeded"
    and "\<forall>rs e. pc s = Returned rs (Some e) \<longrightarrow> rs = [] \<and> ctxErr s = Some e"
  shows "safe sf q sessions s"
  using assms unfolding safe_def by blast

lemma safe_mainStep:
  assumes inv: "safe sf q sessions s" and st: "mainStep q sessions takeDone s = Some s'"
  shows "safe sf q sessions s'"
proof -
  note d = safeD [OF inv]
  show ?thesis
  proof (cases "pc s")
    case (Enqueue i)
    from d(5,6) Enqueue have tk: "tokens s \<subseteq># mset [0..<i]" and le: "i \<le> length sessions"
      by (simp_all add: bound_def)
    from st Enqueue le show ?thesis
    proof (cases rule: mainStep_Enqueue_cases)
      case (cancel e)
      have "tokens s' = tokens s"
        unfolding cancel(4) by (rule tokens_leave_loop [OF Enqueue]) simp
      moreover have "mset [0..<i] \<subseteq># mset [0..<length sessions]"
        by (rule mset_upt_mono [OF le])
      ultimately have "tokens s' \<subseteq># mset [0..<length sessions]"
        using tk by (simp add: subset_mset.order_trans)
      then have "tokens s' \<subseteq># mset [0..<bound (length sessions) (pc s')]"
        by (simp add: cancel(4) bound_def)
      then show ?thesis
        using d(1-3,7) cancel(3) by (intro safeI) (simp_all add: cancel(4) accOf_def bound_def)
    next
      case send
      let ?job = "\<lparr>query = q, session = sessions ! i, sessionIndex = int i\<rparr>"
      have "tokens s' = tokens s + {#jobIdx ?job#}"
        unfolding send(4) by (rule tokens_enqueue [OF Enqueue])
      then have "tokens s' \<subseteq># mset [0..<bound (length sessions) (pc s')]"
        using tk by (simp add: send(4) bound_def jobIdx_def)
      moreover have "wfJob q sessions ?job" using send(1) by (simp add: wfJob_def jobIdx_def)
      ultimately show ?thesis
        using d(1-3,7) send(1) by (intro safeI) (simp_all add: send(4) accOf_def bound_def)
    next
      case leave
      have "tokens s' = tokens s"
        unfolding leave(2) by (rule tokens_leave_loop [OF Enqueue]) simp
      then have "tokens s' \<subseteq># mset [0..<bound (length sessions) (pc s')]"
        using tk leave(1) by (simp add: leave(2) bound_def)
      then show ?thesis
        using d(1-3,7) by (intro safeI) (simp_all add: leave(2) accOf_def bound_def)
    qed
  next
    case (Collect acc)
    from d(4,5) Collect have wa: "\<forall>r \<in> set acc. wfRes sf q sessions r"
      and tk: "tokens s \<subseteq># mset [0..<length sessions]"
      by (simp_all add: accOf_def bound_def)
    from st Collect show ?thesis
    proof (cases rule: mainStep_Collect_cases)
      case (keep r rest)
      have "tokens s' = tokens s"
        unfolding keep(3) by (rule tokens_collect_keep [OF Collect keep(1)])
      then have "tokens s' \<subseteq># mset [0..<bound (length sessions) (pc s')]"
        using tk by (simp add: keep(3) bound_def)
      then show ?thesis
        using d(1-3,7) wa keep(1) by (intro safeI) (simp_all add: keep(3) accOf_def bound_def)
    next
      case (drop r rest)
      have "tokens s' + {#resIdx r#} = tokens s"
        unfolding drop(3) by (rule tokens_collect_drop [OF Collect drop(1)])
      then have "tokens s' \<subseteq># tokens s" by (metis mset_subset_eq_add_left)
      then have "tokens s' \<subseteq># mset [0..<length sessions]"
        using tk by (rule subset_mset.order_trans)
      then have "tokens s' \<subseteq># mset [0..<bound (length sessions) (pc s')]"
        by (simp add: drop(3) bound_def)
      then show ?thesis
        using d(1-3,7) wa drop(1) by (intro safeI) (simp_all add: drop(3) accOf_def bound_def)
    next
      case return
      have "tokens s' = tokens s"
        unfolding return(3) by (rule tokens_return [OF Collect])
      then have "tokens s' \<subseteq># mset [0..<bound (length sessions) (pc s')]"
        using tk by (simp add: return(3) bound_def)
      then show ?thesis
        using d(1-3,7) wa by (intro safeI) (simp_all add: return(3) accOf_def bound_def)
    qed
  next
    case (Returned rs err)
    with st show ?thesis by (simp add: mainStep_def)
  qed
qed

lemma workerStep_cases:
  assumes st: "workerStep sf cap k s = Some s'"
  obtains (receive) job rest where "k < length (workers s)" "workers s ! k = Receiving"
        "jobs s = job # rest"
        "s' = s\<lparr>jobs := rest, workers := (workers s)[k := Selecting job]\<rparr>"
    | (finish) "k < length (workers s)" "workers s ! k = Receiving" "jobs s = []" "jobsClosed s"
        "s' = s\<lparr>workers := (workers s)[k := Exited]\<rparr>"
    | (cancelled) job e where "k < length (workers s)" "workers s ! k = Selecting job"
        "ctxErr s = Some e" "s' = s\<lparr>workers := (workers s)[k := Exited]\<rparr>"
    | (panic) job p where "k < length (workers s)" "workers s ! k = Selecting job"
        "ctxErr s = None" "sf (query job) (FilePath (session job)) = Inl p"
        "s' = s\<lparr>crashed := Some p\<rparr>"
    | (found) job matches where "k < length (workers s)" "workers s ! k = Selecting job"
        "ctxErr s = None" "sf (query job) (FilePath (session job)) = Inr (matches, None)"
        "matches \<noteq> []"
        "s' = s\<lparr>workers := (workers s)
                  [k := Sending \<lparr>SessionID = ID (session job), SessionIndex = sessionIndex job,
                                 Matches = matches, Score = real (length matches)\<rparr>]\<rparr>"
    | (nomatch) job matches err where "k < length (workers s)" "workers s ! k = Selecting job"
        "ctxErr s = None" "sf (query job) (FilePath (session job)) = Inr (matches, err)"
        "\<not> (err = None \<and> matches \<noteq> [])"
        "s' = s\<lparr>workers := (workers s)[k := Receiving]\<rparr>"
    | (send) r where "k < length (workers s)" "workers s ! k = Sending r"
        "length (results s) < cap"
        "s' = s\<lparr>results := results s @ [r], workers := (workers s)[k := Receiving]\<rparr>"
proof -
  from st have k: "k < length (workers s)"
    by (simp add: workerStep_def split: if_splits)
  show ?thesis
  proof (cases "workers s ! k")
    case Receiving
    show ?thesis
    proof (cases "jobs s")
      case Nil
      with st k Receiving have "jobsClosed s" "s' = s\<lparr>workers := (workers s)[k := Exited]\<rparr>"
        by (simp_all add: workerStep_def split: if_splits)
      with k Receiving Nil show ?thesis by (rule finish)
    next
      case (Cons job rest)
      with st k Receiving
      have "s' = s\<lparr>jobs := rest, workers := (workers s)[k := Selecting job]\<rparr>"
        by (simp add: workerStep_def)
      with k Receiving Cons show ?thesis by (rule receive)
    qed
  next
    case (Selecting job)
    show ?thesis
    proof (cases "ctxErr s")
      case (Some e)
      with st k Selecting have "s' = s\<lparr>workers := (workers s)[k := Exited]\<rparr>"
        by (simp add: workerStep_def)
      with k Selecting Some show ?thesis by (rule cancelled)
    next
      case None
      show ?thesis
      proof (cases "sf (query job) (FilePath (session job))")
        case (Inl p)
        with st k Selecting None have "s' = s\<lparr>crashed := Some p\<rparr>"
          by (simp add: workerStep_def)
        with k Selecting None Inl show ?thesis by (rule panic)
      next
        case (Inr pair)
        obtain matches err where pair: "pair = (matches, err)" by (cases pair)
        show ?thesis
        proof (cases "err = None \<and> matches \<noteq> []")
          case True
          with st k Selecting None Inr pair
          have "s' = s\<lparr>workers := (workers s)
                  [k := Sending \<lparr>SessionID = ID (session job), SessionIndex = sessionIndex job,
                                 Matches = matches, Score = real (length matches)\<rparr>]\<rparr>"
            by (simp add: workerStep_def)
          moreover from Inr pair True
          have "sf (query job) (FilePath (session job)) = Inr (matches, None)" by simp
          moreover from True have "matches \<noteq> []" by simp
          ultimately show ?thesis using k Selecting None by (intro found)
        next
          case False
          with st k Selecting None Inr pair
          have "s' = s\<lparr>workers := (workers s)[k := Receiving]\<rparr>"
            by (auto simp add: workerStep_def)
          moreover from Inr pair
          have "sf (query job) (FilePath (session job)) = Inr (matches, err)" by simp
          ultimately show ?thesis using k Selecting None False by (intro nomatch)
        qed
      qed
    qed
  next
    case (Sending r)
    with st k have "length (results s) < cap"
        "s' = s\<lparr>results := results s @ [r], workers := (workers s)[k := Receiving]\<rparr>"
      by (simp_all add: workerStep_def split: if_splits)
    with k Sending show ?thesis by (intro send)
  next
    case Exited
    with st k show ?thesis by (simp add: workerStep_def)
  qed
qed

lemma wf_update:
  assumes "\<forall>w \<in> set ws. wfWorker sf q sessions w" and "wfWorker sf q sessions w'"
  shows "\<forall>w \<in> set (ws[k := w']). wfWorker sf q sessions w"
  using assms set_update_subset_insert [of ws k w'] by auto

lemma subset_of_add:
  fixes A :: "nat multiset"
  assumes "A + B = C" and "C \<subseteq># D"
  shows "A \<subseteq># D"
proof -
  from assms(1) have "A \<subseteq># C" by (metis mset_subset_eq_add_left)
  then show ?thesis using assms(2) by (rule subset_mset.order_trans)
qed

lemma safe_workerStep:
  assumes inv: "safe sf q sessions s" and st: "workerStep sf cap k s = Some s'"
  shows "safe sf q sessions s'"
proof -
  note d = safeD [OF inv]
  have wk: "wfWorker sf q sessions (workers s ! k)" if "k < length (workers s)"
    using d(2) that by simp
  from st show ?thesis
  proof (cases rule: workerStep_cases)
    case (receive job rest)
    have "tokens s' = tokens s"
      unfolding receive(4) by (rule tokens_receive [OF receive(1-3)])
    moreover have "wfWorker sf q sessions (Selecting job)"
      using d(1) receive(3) by (simp add: wfWorker_def)
    ultimately show ?thesis
      using d receive(3) wf_update [OF d(2), of "Selecting job" k]
      by (intro safeI) (simp_all add: receive(4))
  next
    case finish
    have "tokens s' = tokens s"
      unfolding finish(5) by (rule tokens_exit [OF finish(1,2)])
    then show ?thesis
      using d wf_update [OF d(2), of Exited k]
      by (intro safeI) (simp_all add: finish(5) wfWorker_def)
  next
    case (cancelled job e)
    have "tokens s' + {#jobIdx job#} = tokens s"
      unfolding cancelled(4) by (rule tokens_drop_job [OF cancelled(1,2)]) simp
    then have "tokens s' \<subseteq># mset [0..<bound (length sessions) (pc s)]"
      using d(5) by (rule subset_of_add)
    then show ?thesis
      using d wf_update [OF d(2), of Exited k]
      by (intro safeI) (simp_all add: cancelled(4) wfWorker_def)
  next
    case (panic job p)
    then show ?thesis using d by (intro safeI) (simp_all add: panic(5))
  next
    case (found job matches)
    let ?r = "\<lparr>SessionID = ID (session job), SessionIndex = sessionIndex job,
               Matches = matches, Score = real (length matches)\<rparr>"
    from wk [OF found(1)] found(2) have wj: "wfJob q sessions job" by (simp add: wfWorker_def)
    have "tokens s' = tokens s"
      unfolding found(6) by (rule tokens_found [OF found(1,2)]) (simp add: resIdx_def jobIdx_def)
    moreover have "wfWorker sf q sessions (Sending ?r)"
      using wj found(4,5)
      by (simp add: wfWorker_def wfRes_def wfJob_def resIdx_def jobIdx_def emits_def resultOf_def)
    ultimately show ?thesis
      using d wf_update [OF d(2), of "Sending ?r" k]
      by (intro safeI) (simp_all add: found(6))
  next
    case (nomatch job matches err)
    have "tokens s' + {#jobIdx job#} = tokens s"
      unfolding nomatch(6) by (rule tokens_drop_job [OF nomatch(1,2)]) simp
    then have "tokens s' \<subseteq># mset [0..<bound (length sessions) (pc s)]"
      using d(5) by (rule subset_of_add)
    then show ?thesis
      using d wf_update [OF d(2), of Receiving k]
      by (intro safeI) (simp_all add: nomatch(6) wfWorker_def)
  next
    case (send r)
    from wk [OF send(1)] send(2) have wr: "wfRes sf q sessions r" by (simp add: wfWorker_def)
    have "tokens s' = tokens s"
      unfolding send(4) by (rule tokens_send [OF send(1,2)])
    then show ?thesis
      using d wr wf_update [OF d(2), of Receiving k]
      by (intro safeI) (simp_all add: send(4) wfWorker_def)
  qed
qed

lemma safe_step:
  assumes inv: "safe sf q sessions s" and st: "step sf q sessions ev s = Some s'"
  shows "safe sf q sessions s'"
proof (cases ev)
  case (CtxDone e)
  with st have e: "ctxErr s = None" "e = Canceled \<or> e = DeadlineExceeded"
    and s': "s' = s\<lparr>ctxErr := Some e\<rparr>"
    by (simp_all add: step_def split: if_splits)
  note d = safeD [OF inv]
  from d e show ?thesis by (intro safeI) (simp_all add: s')
next
  case (MainStep takeDone)
  with st have "mainStep q sessions takeDone s = Some s'" by (simp add: step_def split: if_splits)
  with inv show ?thesis by (rule safe_mainStep)
next
  case (WorkerStep k)
  with st have "workerStep sf (length sessions) k s = Some s'"
    by (simp add: step_def split: if_splits)
  with inv show ?thesis by (rule safe_workerStep)
next
  case CloserStep
  with st have s': "s' = s\<lparr>resultsClosed := True\<rparr>"
    by (simp add: step_def closerStep_def split: if_splits)
  note d = safeD [OF inv]
  from d show ?thesis by (intro safeI) (simp_all add: s')
qed

lemma safe_run:
  "safe sf q sessions s \<Longrightarrow> run sf q sessions evs s = Some s' \<Longrightarrow> safe sf q sessions s'"
proof (induction evs arbitrary: s)
  case Nil
  then show ?case by simp
next
  case (Cons ev evs)
  from Cons.prems(2) obtain s1 where s1: "step sf q sessions ev s = Some s1"
    and r: "run sf q sessions evs s1 = Some s'"
    by (auto split: option.splits)
  from Cons.prems(1) s1 have "safe sf q sessions s1" by (rule safe_step)
  then show ?case using r by (rule Cons.IH)
qed

lemma distinct_of_mset_subset_upt:
  assumes "mset xs \<subseteq># mset [0..<n]"
  shows "distinct xs"
proof -
  have le: "count (mset xs) a \<le> 1" for a
  proof -
    have "count (mset xs) a \<le> count (mset [0..<n]) a"
      using assms by (rule mset_subset_eq_count)
    also have "\<dots> \<le> 1"
      using distinct_upt [of 0 n] by (simp add: distinct_count_atmost_1)
    finally show ?thesis .
  qed
  have "count (mset xs) a = (if a \<in> set xs then 1 else 0)" for a
  proof (cases "a \<in> set xs")
    case True
    then have "count (mset xs) a \<noteq> 0" by simp
    with le [of a] have "count (mset xs) a = 1" by arith
    with True show ?thesis by simp
  next
    case False
    then show ?thesis by simp
  qed
  then show ?thesis by (simp add: distinct_count_atmost_1)
qed

lemma distinct_map_comp:
  "distinct (map (\<lambda>x. g (f x)) xs) \<Longrightarrow> distinct (map f xs)"
  by (induction xs) auto

lemma distinct_nth_map:
  assumes "distinct ys" "distinct is" "\<forall>i \<in> set is. i < length ys"
  shows "distinct (map (\<lambda>i. ys ! i) is)"
  by (simp add: assms distinct_map inj_on_nth)

lemma run_initial_safe:
  assumes "run sf q sessions schedule (initial c) = Some s"
  shows "safe sf q sessions s"
  using safe_initial assms by (rule safe_run)

lemma SearchContent_run:
  assumes "SearchContent sf c q sessions schedule = Some (rs, err)"
  obtains s where "run sf q sessions schedule (initial c) = Some s" "pc s = Returned rs err"
  using assms by (auto simp: SearchContent_def split: option.splits mainpc.splits)

lemma returned_results:
  assumes inv: "safe sf q sessions s" and pc: "pc s = Returned rs err"
  shows "\<forall>r \<in> set rs. wfRes sf q sessions r"
    and "distinct (map resIdx rs)"
proof -
  note d = safeD [OF inv]
  from d(4) pc show "\<forall>r \<in> set rs. wfRes sf q sessions r" by (simp add: accOf_def)
  have "mset (map resIdx rs) \<subseteq># tokens s"
    using pc by (simp add: tokens_def accOf_def)
  moreover from d(5) pc have "tokens s \<subseteq># mset [0..<length sessions]" by (simp add: bound_def)
  ultimately have "mset (map resIdx rs) \<subseteq># mset [0..<length sessions]"
    by (rule subset_mset.order_trans)
  then show "distinct (map resIdx rs)" by (rule distinct_of_mset_subset_upt)
qed

lemma wfRes_fields:
  assumes "wfRes sf q sessions r"
  shows "Matches r \<noteq> []" and "0 \<le> SessionIndex r" and "nat (SessionIndex r) < length sessions"
    and "SessionID r = ID (sessions ! nat (SessionIndex r))"
    and "Score r = real (length (Matches r))"
proof -
  let ?i = "nat (SessionIndex r)"
  from assms have i: "0 \<le> SessionIndex r" "?i < length sessions"
    and e: "emits sf q sessions ?i" and r: "r = resultOf sf q sessions ?i"
    by (simp_all add: wfRes_def resIdx_def)
  from e obtain ms where ms: "sf q (FilePath (sessions ! ?i)) = Inr (ms, None)" "ms \<noteq> []"
    by (auto simp: emits_def split: sum.splits)
  from r ms have req: "r = \<lparr>SessionID = ID (sessions ! ?i), SessionIndex = int ?i,
      Matches = ms, Score = real (length ms)\<rparr>"
    by (simp add: resultOf_def)
  have f: "Matches r = ms" "SessionID r = ID (sessions ! ?i)" "Score r = real (length ms)"
    by (subst req, simp)+
  from f ms i show "Matches r \<noteq> []" "0 \<le> SessionIndex r" "nat (SessionIndex r) < length sessions"
    "SessionID r = ID (sessions ! nat (SessionIndex r))" "Score r = real (length (Matches r))"
    by simp_all
qed

lemma completeD:
  assumes "complete sf q sessions s"
  shows "ctxErr s = None \<Longrightarrow>
           filter_mset (emits sf q sessions) (tokens s) =
           filter_mset (emits sf q sessions) (mset [0..<bound (length sessions) (pc s)])"
    and "jobsClosed s = (\<forall>i. pc s \<noteq> Enqueue i)"
    and "ctxErr s = None \<Longrightarrow> Exited \<in> set (workers s) \<Longrightarrow> jobsClosed s \<and> jobs s = []"
    and "resultsClosed s \<Longrightarrow> \<forall>w \<in> set (workers s). w = Exited"
    and "\<forall>rs. pc s = Returned rs None \<longrightarrow> resultsClosed s \<and> results s = []"
  using assms unfolding complete_def by blast+

lemma completeI:
  assumes "ctxErr s = None \<Longrightarrow>
           filter_mset (emits sf q sessions) (tokens s) =
           filter_mset (emits sf q sessions) (mset [0..<bound (length sessions) (pc s)])"
    and "jobsClosed s = (\<forall>i. pc s \<noteq> Enqueue i)"
    and "ctxErr s = None \<Longrightarrow> Exited \<in> set (workers s) \<Longrightarrow> jobsClosed s \<and> jobs s = []"
    and "resultsClosed s \<Longrightarrow> \<forall>w \<in> set (workers s). w = Exited"
    and "\<forall>rs. pc s = Returned rs None \<longrightarrow> resultsClosed s \<and> results s = []"
  shows "complete sf q sessions s"
  using assms unfolding complete_def by blast

lemma complete_initial: "complete sf q sessions (initial c)"
  by (simp add: complete_def initial_def tokens_def accOf_def bound_def workerTokens_def
      sum_list_replicate_empty)

lemma complete_mainStep:
  assumes inv: "safe sf q sessions s" and cmp: "complete sf q sessions s"
    and st: "mainStep q sessions takeDone s = Some s'"
  shows "complete sf q sessions s'"
proof -
  note d = safeD [OF inv]
  note c = completeD [OF cmp]
  show ?thesis
  proof (cases "pc s")
    case (Enqueue i)
    from d(6) Enqueue have le: "i \<le> length sessions" by (simp add: bound_def)
    from c(2) Enqueue have isopen: "\<not> jobsClosed s" by simp
    have noexit: "Exited \<notin> set (workers s)" if "ctxErr s = None"
      using c(3) [OF that] isopen by blast
    from st Enqueue le show ?thesis
    proof (cases rule: mainStep_Enqueue_cases)
      case (cancel e)
      show ?thesis
        using cancel(3) c(4) by (intro completeI) (simp_all add: cancel(4))
    next
      case send
      let ?job = "\<lparr>query = q, session = sessions ! i, sessionIndex = int i\<rparr>"
      have tk: "tokens s' = tokens s + {#i#}"
        unfolding send(4) using tokens_enqueue [OF Enqueue, where job = ?job and i' = "i + 1"]
        by (simp add: jobIdx_def)
      show ?thesis
      proof (intro completeI)
        assume n: "ctxErr s' = None"
        then have "ctxErr s = None" by (simp add: send(4))
        from c(1) [OF this] Enqueue tk
        show "filter_mset (emits sf q sessions) (tokens s') =
           filter_mset (emits sf q sessions) (mset [0..<bound (length sessions) (pc s')])"
          by (simp add: send(4) bound_def)
      next
        assume "ctxErr s' = None" "Exited \<in> set (workers s')"
        then show "jobsClosed s' \<and> jobs s' = []"
          using noexit by (simp add: send(4))
      qed (use isopen c(4) in \<open>simp_all add: send(4)\<close>)
    next
      case leave
      have tk: "tokens s' = tokens s"
        unfolding leave(2) by (rule tokens_leave_loop [OF Enqueue]) simp
      show ?thesis
      proof (intro completeI)
        assume n: "ctxErr s' = None"
        then have "ctxErr s = None" by (simp add: leave(2))
        from c(1) [OF this] Enqueue tk leave(1)
        show "filter_mset (emits sf q sessions) (tokens s') =
           filter_mset (emits sf q sessions) (mset [0..<bound (length sessions) (pc s')])"
          by (simp add: leave(2) bound_def)
      next
        assume "ctxErr s' = None" "Exited \<in> set (workers s')"
        then show "jobsClosed s' \<and> jobs s' = []"
          using noexit by (simp add: leave(2))
      qed (use c(4) in \<open>simp_all add: leave(2)\<close>)
    qed
  next
    case (Collect acc)
    from c(2) Collect have closed: "jobsClosed s" by simp
    from st Collect show ?thesis
    proof (cases rule: mainStep_Collect_cases)
      case (keep r rest)
      have tk: "tokens s' = tokens s"
        unfolding keep(3) by (rule tokens_collect_keep [OF Collect keep(1)])
      show ?thesis
      proof (intro completeI)
        assume n: "ctxErr s' = None"
        then have "ctxErr s = None" by (simp add: keep(3))
        from c(1) [OF this] Collect tk
        show "filter_mset (emits sf q sessions) (tokens s') =
           filter_mset (emits sf q sessions) (mset [0..<bound (length sessions) (pc s')])"
          by (simp add: keep(3) bound_def)
      next
        assume "ctxErr s' = None" "Exited \<in> set (workers s')"
        then show "jobsClosed s' \<and> jobs s' = []"
          using c(3) by (simp add: keep(3))
      qed (use closed c(4) in \<open>simp_all add: keep(3)\<close>)
    next
      case (drop r rest)
      from d(3) drop(1) have "wfRes sf q sessions r" by simp
      then have "Matches r \<noteq> []" by (rule wfRes_fields(1))
      with drop(2) show ?thesis by simp
    next
      case return
      have tk: "tokens s' = tokens s"
        unfolding return(3) by (rule tokens_return [OF Collect])
      show ?thesis
      proof (intro completeI)
        assume n: "ctxErr s' = None"
        then have "ctxErr s = None" by (simp add: return(3))
        from c(1) [OF this] Collect tk
        show "filter_mset (emits sf q sessions) (tokens s') =
           filter_mset (emits sf q sessions) (mset [0..<bound (length sessions) (pc s')])"
          by (simp add: return(3) bound_def)
      next
        assume "ctxErr s' = None" "Exited \<in> set (workers s')"
        then show "jobsClosed s' \<and> jobs s' = []"
          using c(3) by (simp add: return(3))
      qed (use closed c(4) return(1,2) in \<open>simp_all add: return(3)\<close>)
    qed
  next
    case (Returned rs err)
    with st show ?thesis by (simp add: mainStep_def)
  qed
qed

lemma Exited_in_update:
  assumes "Exited \<in> set (ws[k := w])" and "w \<noteq> Exited"
  shows "Exited \<in> set ws"
  using assms set_update_subset_insert [of ws k w] by auto

lemma not_all_Exited:
  assumes "k < length ws" "ws ! k \<noteq> Exited"
  shows "\<not> (\<forall>w \<in> set ws. w = Exited)"
  using assms nth_mem by blast

lemma complete_workerStep:
  assumes inv: "safe sf q sessions s" and cmp: "complete sf q sessions s"
    and st: "workerStep sf cap k s = Some s'"
  shows "complete sf q sessions s'"
proof -
  note d = safeD [OF inv]
  note c = completeD [OF cmp]
  have running: "\<not> resultsClosed s" if "k < length (workers s)" "workers s ! k \<noteq> Exited"
    using c(4) not_all_Exited [OF that] by blast
  have notret: "pc s \<noteq> Returned rs None" if "k < length (workers s)" "workers s ! k \<noteq> Exited" for rs
    using c(5) running [OF that] by blast
  from st show ?thesis
  proof (cases rule: workerStep_cases)
    case (receive job rest)
    have tk: "tokens s' = tokens s"
      unfolding receive(4) by (rule tokens_receive [OF receive(1-3)])
    have r: "\<not> resultsClosed s" and nr: "\<And>rs. pc s \<noteq> Returned rs None"
      using running [OF receive(1)] notret [OF receive(1)] receive(2) by simp_all
    show ?thesis
    proof (intro completeI)
      assume "ctxErr s' = None"
      then have "ctxErr s = None" by (simp add: receive(4))
      from c(1) [OF this] tk
      show "filter_mset (emits sf q sessions) (tokens s') =
           filter_mset (emits sf q sessions) (mset [0..<bound (length sessions) (pc s')])"
        by (simp add: receive(4))
    next
      assume n: "ctxErr s' = None" and ex: "Exited \<in> set (workers s')"
      from ex have "Exited \<in> set (workers s)"
        unfolding receive(4) by simp (rule Exited_in_update, assumption, simp)
      with c(3) n receive(3) show "jobsClosed s' \<and> jobs s' = []" by (simp add: receive(4))
    qed (use c(2) r nr in \<open>simp_all add: receive(4)\<close>)
  next
    case finish
    have tk: "tokens s' = tokens s"
      unfolding finish(5) by (rule tokens_exit [OF finish(1,2)])
    have r: "\<not> resultsClosed s" and nr: "\<And>rs. pc s \<noteq> Returned rs None"
      using running [OF finish(1)] notret [OF finish(1)] finish(2) by simp_all
    show ?thesis
    proof (intro completeI)
      assume "ctxErr s' = None"
      then have "ctxErr s = None" by (simp add: finish(5))
      from c(1) [OF this] tk
      show "filter_mset (emits sf q sessions) (tokens s') =
           filter_mset (emits sf q sessions) (mset [0..<bound (length sessions) (pc s')])"
        by (simp add: finish(5))
    qed (use c(2) r nr finish(3,4) in \<open>simp_all add: finish(5)\<close>)
  next
    case (cancelled job e)
    have r: "\<not> resultsClosed s" and nr: "\<And>rs. pc s \<noteq> Returned rs None"
      using running [OF cancelled(1)] notret [OF cancelled(1)] cancelled(2) by simp_all
    show ?thesis
      using c(2) r nr cancelled(3) by (intro completeI) (simp_all add: cancelled(4))
  next
    case (panic job p)
    show ?thesis
      using c by (intro completeI) (simp_all add: panic(5))
  next
    case (found job matches)
    let ?r = "\<lparr>SessionID = ID (session job), SessionIndex = sessionIndex job,
               Matches = matches, Score = real (length matches)\<rparr>"
    have tk: "tokens s' = tokens s"
      unfolding found(6) by (rule tokens_found [OF found(1,2)]) (simp add: resIdx_def jobIdx_def)
    have r: "\<not> resultsClosed s" and nr: "\<And>rs. pc s \<noteq> Returned rs None"
      using running [OF found(1)] notret [OF found(1)] found(2) by simp_all
    show ?thesis
    proof (intro completeI)
      assume "ctxErr s' = None"
      then have "ctxErr s = None" by (simp add: found(6))
      from c(1) [OF this] tk
      show "filter_mset (emits sf q sessions) (tokens s') =
           filter_mset (emits sf q sessions) (mset [0..<bound (length sessions) (pc s')])"
        by (simp add: found(6))
    next
      assume n: "ctxErr s' = None" and ex: "Exited \<in> set (workers s')"
      from ex have "Exited \<in> set (workers s)"
        unfolding found(6) by simp (rule Exited_in_update, assumption, simp)
      with c(3) n show "jobsClosed s' \<and> jobs s' = []" by (simp add: found(6))
    qed (use c(2) r nr in \<open>simp_all add: found(6)\<close>)
  next
    case (nomatch job matches err)
    have tk: "tokens s' + {#jobIdx job#} = tokens s"
      unfolding nomatch(6) by (rule tokens_drop_job [OF nomatch(1,2)]) simp
    from d(2) nomatch(1) have "wfWorker sf q sessions (workers s ! k)" by simp
    then have wj: "wfJob q sessions job" by (simp add: nomatch(2) wfWorker_def)
    then have ne: "\<not> emits sf q sessions (jobIdx job)"
      using nomatch(4,5) by (auto simp add: wfJob_def emits_def)
    have r: "\<not> resultsClosed s" and nr: "\<And>rs. pc s \<noteq> Returned rs None"
      using running [OF nomatch(1)] notret [OF nomatch(1)] nomatch(2) by simp_all
    show ?thesis
    proof (intro completeI)
      assume "ctxErr s' = None"
      then have "ctxErr s = None" by (simp add: nomatch(6))
      from c(1) [OF this]
      have "filter_mset (emits sf q sessions) (tokens s' + {#jobIdx job#}) =
           filter_mset (emits sf q sessions) (mset [0..<bound (length sessions) (pc s)])"
        by (simp only: tk)
      with ne
      show "filter_mset (emits sf q sessions) (tokens s') =
           filter_mset (emits sf q sessions) (mset [0..<bound (length sessions) (pc s')])"
        by (simp add: nomatch(6))
    next
      assume n: "ctxErr s' = None" and ex: "Exited \<in> set (workers s')"
      from ex have "Exited \<in> set (workers s)"
        unfolding nomatch(6) by simp (rule Exited_in_update, assumption, simp)
      with c(3) n show "jobsClosed s' \<and> jobs s' = []" by (simp add: nomatch(6))
    qed (use c(2) r nr in \<open>simp_all add: nomatch(6)\<close>)
  next
    case (send r)
    have tk: "tokens s' = tokens s"
      unfolding send(4) by (rule tokens_send [OF send(1,2)])
    have rc: "\<not> resultsClosed s" and nr: "\<And>rs. pc s \<noteq> Returned rs None"
      using running [OF send(1)] notret [OF send(1)] send(2) by simp_all
    show ?thesis
    proof (intro completeI)
      assume "ctxErr s' = None"
      then have "ctxErr s = None" by (simp add: send(4))
      from c(1) [OF this] tk
      show "filter_mset (emits sf q sessions) (tokens s') =
           filter_mset (emits sf q sessions) (mset [0..<bound (length sessions) (pc s')])"
        by (simp add: send(4))
    next
      assume n: "ctxErr s' = None" and ex: "Exited \<in> set (workers s')"
      from ex have "Exited \<in> set (workers s)"
        unfolding send(4) by simp (rule Exited_in_update, assumption, simp)
      with c(3) n show "jobsClosed s' \<and> jobs s' = []" by (simp add: send(4))
    qed (use c(2) rc nr in \<open>simp_all add: send(4)\<close>)
  qed
qed

lemma complete_step:
  assumes inv: "safe sf q sessions s" and cmp: "complete sf q sessions s"
    and st: "step sf q sessions ev s = Some s'"
  shows "complete sf q sessions s'"
proof (cases ev)
  case (CtxDone e)
  with st have s': "s' = s\<lparr>ctxErr := Some e\<rparr>"
    by (simp_all add: step_def split: if_splits)
  note c = completeD [OF cmp]
  from c(2,4,5) show ?thesis by (intro completeI) (simp_all add: s')
next
  case (MainStep takeDone)
  with st have "mainStep q sessions takeDone s = Some s'" by (simp add: step_def split: if_splits)
  with inv cmp show ?thesis by (rule complete_mainStep)
next
  case (WorkerStep k)
  with st have "workerStep sf (length sessions) k s = Some s'"
    by (simp add: step_def split: if_splits)
  with inv cmp show ?thesis by (rule complete_workerStep)
next
  case CloserStep
  with st have s': "s' = s\<lparr>resultsClosed := True\<rparr>"
    and ex: "\<forall>w \<in> set (workers s). w = Exited" and nc: "\<not> resultsClosed s"
    by (simp_all add: step_def closerStep_def split: if_splits)
  note c = completeD [OF cmp]
  from c(5) nc have "\<And>rs. pc s \<noteq> Returned rs None" by blast
  with c(1-3) ex show ?thesis by (intro completeI) (simp_all add: s')
qed

lemma invariants_run:
  "safe sf q sessions s \<Longrightarrow> complete sf q sessions s \<Longrightarrow>
   run sf q sessions evs s = Some s' \<Longrightarrow> safe sf q sessions s' \<and> complete sf q sessions s'"
proof (induction evs arbitrary: s)
  case Nil
  then show ?case by simp
next
  case (Cons ev evs)
  from Cons.prems(3) obtain s1 where s1: "step sf q sessions ev s = Some s1"
    and r: "run sf q sessions evs s1 = Some s'"
    by (auto split: option.splits)
  from Cons.prems(1) s1 have "safe sf q sessions s1" by (rule safe_step)
  moreover from Cons.prems(1,2) s1 have "complete sf q sessions s1" by (rule complete_step)
  ultimately show ?case using r by (rule Cons.IH)
qed

lemma workerStep_errorsAsNoMatches:
  "workerStep (errorsAsNoMatches sf) cap k s = workerStep sf cap k s"
proof (cases "k < length (workers s)")
  case False
  then show ?thesis by (simp add: workerStep_def)
next
  case k: True
  show ?thesis
  proof (cases "workers s ! k")
    case (Selecting job)
    show ?thesis
    proof (cases "sf (query job) (FilePath (session job))")
      case (Inl p)
      with k Selecting show ?thesis
        by (simp add: workerStep_def errorsAsNoMatches_def split: option.splits)
    next
      case (Inr pair)
      obtain matches err where "pair = (matches, err)" by (cases pair)
      with Inr k Selecting show ?thesis
        by (simp add: workerStep_def errorsAsNoMatches_def split: option.splits)
    qed
  qed (use k in \<open>simp_all add: workerStep_def\<close>)
qed

lemma step_errorsAsNoMatches:
  "step (errorsAsNoMatches sf) q sessions ev s = step sf q sessions ev s"
  by (simp add: step_def workerStep_errorsAsNoMatches split: event.splits)

lemma run_errorsAsNoMatches:
  "run (errorsAsNoMatches sf) q sessions evs s = run sf q sessions evs s"
  by (induction evs arbitrary: s) (simp_all add: step_errorsAsNoMatches split: option.splits)

lemma SearchContent_errorsAsNoMatches:
  "SearchContent (errorsAsNoMatches sf) c q sessions schedule =
   SearchContent sf c q sessions schedule"
  by (simp add: SearchContent_def run_errorsAsNoMatches)

lemma step_frame:
  assumes "step sf q sessions ev s = Some s'"
  shows "length (workers s') = length (workers s)"
    and "(\<forall>e. ev \<noteq> CtxDone e) \<Longrightarrow> ctxErr s' = ctxErr s"
proof -
  have "length (workers s') = length (workers s) \<and> ((\<forall>e. ev \<noteq> CtxDone e) \<longrightarrow> ctxErr s' = ctxErr s)"
  proof (cases ev)
    case (CtxDone e)
    with assms show ?thesis by (auto simp: step_def split: if_splits)
  next
    case (MainStep takeDone)
    with assms have st: "mainStep q sessions takeDone s = Some s'"
      by (simp add: step_def split: if_splits)
    show ?thesis
    proof (cases "pc s")
      case (Enqueue i)
      with st show ?thesis
        by (auto simp: mainStep_def split: if_splits option.splits)
    next
      case (Collect acc)
      with st show ?thesis by (cases rule: mainStep_Collect_cases) simp_all
    next
      case (Returned rs err)
      with st show ?thesis by (simp add: mainStep_def)
    qed
  next
    case (WorkerStep k)
    with assms have "workerStep sf (length sessions) k s = Some s'"
      by (simp add: step_def split: if_splits)
    then show ?thesis by (cases rule: workerStep_cases) simp_all
  next
    case CloserStep
    with assms show ?thesis by (auto simp: step_def closerStep_def split: if_splits)
  qed
  then show "length (workers s') = length (workers s)"
    and "(\<forall>e. ev \<noteq> CtxDone e) \<Longrightarrow> ctxErr s' = ctxErr s" by blast+
qed

lemma run_frame:
  "run sf q sessions evs s = Some s' \<Longrightarrow>
   length (workers s') = length (workers s) \<and>
   ((\<forall>e. CtxDone e \<notin> set evs) \<longrightarrow> ctxErr s' = ctxErr s)"
proof (induction evs arbitrary: s)
  case Nil
  then show ?case by simp
next
  case (Cons ev evs)
  from Cons.prems obtain s1 where s1: "step sf q sessions ev s = Some s1"
    and r: "run sf q sessions evs s1 = Some s'"
    by (auto split: option.splits)
  from Cons.IH [OF r] step_frame [OF s1] show ?case by auto
qed

lemma run_append:
  "run sf q sessions (xs @ ys) s =
     (case run sf q sessions xs s of None \<Rightarrow> None | Some s1 \<Rightarrow> run sf q sessions ys s1)"
  by (induction xs arbitrary: s) (simp_all split: option.splits)

lemma sum_list_all_Exited:
  "\<forall>w \<in> set ws. w = Exited \<Longrightarrow> sum_list (map workerTokens ws) = {#}"
  by (induction ws) (simp_all add: workerTokens_def)

lemma filter_mset_all:
  "\<forall>x \<in># M. P x \<Longrightarrow> filter_mset P M = M"
  by (simp add: filter_mset_eq_conv)

lemma returned_all:
  assumes inv: "safe sf q sessions s" and cmp: "complete sf q sessions s"
    and pc: "pc s = Returned rs err" and ctx: "ctxErr s = None" and w: "workers s \<noteq> []"
  shows "err = None"
    and "mset rs = mset (map (resultOf sf q sessions) (filter (emits sf q sessions) [0..<length sessions]))"
proof -
  note d = safeD [OF inv]
  note c = completeD [OF cmp]
  show e: "err = None"
  proof (cases err)
    case (Some e)
    with d(8) pc ctx show ?thesis by simp
  qed simp
  with c(5) pc have rc: "resultsClosed s" and re: "results s = []" by simp_all
  from c(4) [OF rc] have ex: "\<forall>w \<in> set (workers s). w = Exited" .
  with w have "Exited \<in> set (workers s)" by (cases "workers s") auto
  with c(3) [OF ctx] have je: "jobs s = []" by simp
  have tk: "tokens s = mset (map resIdx rs)"
    using je re pc sum_list_all_Exited [OF ex] by (simp add: tokens_def accOf_def)
  note r = returned_results [OF inv pc]
  have "\<forall>i \<in># mset (map resIdx rs). emits sf q sessions i"
    using r(1) by (auto simp: wfRes_def)
  then have "filter_mset (emits sf q sessions) (mset (map resIdx rs)) = mset (map resIdx rs)"
    by (rule filter_mset_all)
  with c(1) [OF ctx] tk pc
  have idx: "mset (map resIdx rs) = mset (filter (emits sf q sessions) [0..<length sessions])"
    by (simp add: bound_def)
  have "map (resultOf sf q sessions) (map resIdx rs) = rs"
    using r(1) by (simp add: wfRes_def map_idI)
  then have "mset rs = image_mset (resultOf sf q sessions) (mset (map resIdx rs))"
    by (metis mset_map)
  also have "\<dots> = image_mset (resultOf sf q sessions)
      (mset (filter (emits sf q sessions) [0..<length sessions]))"
    by (simp only: idx)
  also have "\<dots> = mset (map (resultOf sf q sessions) (filter (emits sf q sessions) [0..<length sessions]))"
    by (simp only: mset_map)
  finally show "mset rs =
      mset (map (resultOf sf q sessions) (filter (emits sf q sessions) [0..<length sessions]))" .
qed

section \<open>What SearchContent returns\<close>

lemma mixed_searchFile:
  "searchFile mixedExec demoUnmarshal demoEngine q' ''/s/a1.jsonl'' = Inr ([oauthMatch], None)"
  "searchFile mixedExec demoUnmarshal demoEngine q' ''/s/a2.jsonl'' = Inr ([], Some (ExitError 2))"
  by (simp_all add: searchFile_def mixedExec_def rgArgs_def demo_parse)

lemma notFound_searchFile:
  "searchFile notFoundExec um c q' p = Inr ([], Some ErrNotFound)"
  by (simp add: searchFile_def notFoundExec_def)

lemma noMatch_searchFile:
  "searchFile demoExecNoMatch um c q' p = Inr ([], None)"
  by (simp add: searchFile_def demoExecNoMatch_def)

lemma replicate_4: "replicate 4 x = [x, x, x, x]"
  by (simp add: eval_nat_numeral)

lemmas pool_simps = SearchContent_def step_def mainStep_def workerStep_def closerStep_def
  closerStarted_def initial_def demoEngine_def twoSessions_def replicate_4

lemma run_both:
  "SearchContent (searchFile demoExec demoUnmarshal demoEngine) demoEngine ''OAuth'' twoSessions
     scheduleBoth = Some ([oauthResult 1, oauthResult 0], None)"
  by (simp add: scheduleBoth_def pool_simps demo_searchFile [unfolded demoEngine_def]
      oauthResult_def)

lemma run_one_fails:
  "SearchContent (searchFile mixedExec demoUnmarshal demoEngine) demoEngine ''OAuth'' twoSessions
     scheduleOneFails = Some ([oauthResult 0], None)"
  by (simp add: scheduleOneFails_def pool_simps mixed_searchFile [unfolded demoEngine_def]
      oauthResult_def)

lemma run_late_deadline:
  "SearchContent (searchFile demoExec demoUnmarshal demoEngine) demoEngine ''OAuth'' twoSessions
     scheduleLateDeadline = Some ([oauthResult 0], None)"
  by (simp add: scheduleLateDeadline_def pool_simps demo_searchFile [unfolded demoEngine_def]
      oauthResult_def)

lemma run_not_found:
  "SearchContent (searchFile notFoundExec demoUnmarshal demoEngine) demoEngine ''OAuth'' twoSessions
     scheduleNoResults = Some ([], None)"
  by (simp add: scheduleNoResults_def pool_simps notFound_searchFile)

lemma run_no_match:
  "SearchContent (searchFile demoExecNoMatch demoUnmarshal demoEngine) demoEngine ''OAuth'' twoSessions
     scheduleNoResults = Some ([], None)"
  by (simp add: scheduleNoResults_def pool_simps noMatch_searchFile)

lemma broken_searchFile:
  "searchFile brokenExec um c q' p = Inr ([], Some (ExitError 2))"
  by (simp add: searchFile_def brokenExec_def)

lemma run_broken:
  "SearchContent (searchFile brokenExec demoUnmarshal demoEngine) demoEngine ''OAuth'' twoSessions
     scheduleNoResults = Some ([], None)"
  by (simp add: scheduleNoResults_def pool_simps broken_searchFile)

text \<open>
  C1. Whatever the context does, whatever the query and the sessions are, and however
  the goroutines are scheduled: every \<^verbatim>\<open>SearchResult\<close> of the list that
  \<^verbatim>\<open>SearchContent\<close> returns has at least one match; no \<^verbatim>\<open>SessionIndex\<close>, hence no
  pair of \<^verbatim>\<open>SessionID\<close> and \<^verbatim>\<open>SessionIndex\<close>, occurs twice in the list, so no session
  of the input occurs twice (and no \<^verbatim>\<open>SessionID\<close> occurs twice when the IDs of the
  input are distinct); and the \<^verbatim>\<open>SessionIndex\<close> of each result is the position in the
  input of the session whose ID the result carries.
\<close>

theorem SearchContent_results:
  assumes "SearchContent sf c q sessions schedule = Some (rs, err)"
  shows "(\<forall>r \<in> set rs. Matches r \<noteq> [])
       \<and> distinct (map SessionIndex rs)
       \<and> distinct (map (\<lambda>r. (SessionID r, SessionIndex r)) rs)
       \<and> (\<forall>r \<in> set rs. 0 \<le> SessionIndex r \<and> nat (SessionIndex r) < length sessions
                        \<and> SessionID r = ID (sessions ! nat (SessionIndex r)))
       \<and> (distinct (map ID sessions) \<longrightarrow> distinct (map SessionID rs))"
proof -
  from assms obtain s where s: "run sf q sessions schedule (initial c) = Some s"
    "pc s = Returned rs err"
    by (rule SearchContent_run)
  from s(1) have inv: "safe sf q sessions s" by (rule run_initial_safe)
  note r = returned_results [OF inv s(2)]
  have a: "\<forall>r \<in> set rs. Matches r \<noteq> []"
    using r(1) wfRes_fields(1) by blast
  have b: "distinct (map SessionIndex rs)"
    using r(2) unfolding resIdx_def by (rule distinct_map_comp)
  have c: "\<forall>r \<in> set rs. 0 \<le> SessionIndex r \<and> nat (SessionIndex r) < length sessions
                        \<and> SessionID r = ID (sessions ! nat (SessionIndex r))"
    using r(1) wfRes_fields(2-4) by blast
  have d: "distinct (map SessionID rs)" if ids: "distinct (map ID sessions)"
  proof -
    have "distinct (map (\<lambda>i. map ID sessions ! i) (map resIdx rs))"
      using ids r(2) c by (intro distinct_nth_map) (auto simp: resIdx_def)
    moreover have "map (\<lambda>i. map ID sessions ! i) (map resIdx rs) = map SessionID rs"
      using c by (simp add: resIdx_def)
    ultimately show ?thesis by (simp only:)
  qed
  have "distinct (map (\<lambda>r. snd (SessionID r, SessionIndex r)) rs)" using b by simp
  then have e: "distinct (map (\<lambda>r. (SessionID r, SessionIndex r)) rs)"
    by (rule distinct_map_comp)
  from a b c d e show ?thesis by blast
qed

theorem SearchContent_results_witness:
  "SearchContent (searchFile demoExec demoUnmarshal demoEngine) demoEngine ''OAuth'' twoSessions
     scheduleBoth = Some ([oauthResult 1, oauthResult 0], None)
   \<and> Matches (oauthResult 1) \<noteq> [] \<and> Matches (oauthResult 0) \<noteq> []
   \<and> distinct (map SessionIndex [oauthResult 1, oauthResult 0])
   \<and> distinct (map (\<lambda>r. (SessionID r, SessionIndex r)) [oauthResult 1, oauthResult 0])
   \<and> SessionID (oauthResult 1) = ID (twoSessions ! 1)
   \<and> SessionID (oauthResult 0) = ID (twoSessions ! 0)
   \<and> distinct (map ID twoSessions)
   \<and> distinct (map SessionID [oauthResult 1, oauthResult 0])"
proof -
  note t = SearchContent_results [OF run_both]
  have ids: "distinct (map ID twoSessions)" by (simp add: twoSessions_def)
  have ix: "nat (SessionIndex (oauthResult 1)) = 1" "nat (SessionIndex (oauthResult 0)) = 0"
    by (simp_all add: oauthResult_def)
  from t have m: "Matches (oauthResult 1) \<noteq> []" "Matches (oauthResult 0) \<noteq> []" by simp_all
  from t have d1: "distinct (map SessionIndex [oauthResult 1, oauthResult 0])" by blast
  from t ids have d2: "distinct (map SessionID [oauthResult 1, oauthResult 0])" by blast
  from t have d3: "distinct (map (\<lambda>r. (SessionID r, SessionIndex r)) [oauthResult 1, oauthResult 0])"
    by blast
  from t have "SessionID (oauthResult 1) = ID (twoSessions ! nat (SessionIndex (oauthResult 1)))"
    "SessionID (oauthResult 0) = ID (twoSessions ! nat (SessionIndex (oauthResult 0)))"
    by simp_all
  then have s: "SessionID (oauthResult 1) = ID (twoSessions ! 1)"
    "SessionID (oauthResult 0) = ID (twoSessions ! 0)"
    by (simp_all only: ix)
  from run_both m d1 d3 s ids d2 show ?thesis by blast
qed

text \<open>
  Where the context is looked at. In every state a run can reach: (1) when
  \<^verbatim>\<open>SearchContent\<close> has returned an error, the error is the context's (\<^verbatim>\<open>Canceled\<close>
  or \<^verbatim>\<open>DeadlineExceeded\<close>) and the result list is \<^verbatim>\<open>nil\<close>; (2) when the context is
  done while a job is still to be enqueued, the \<^verbatim>\<open>select\<close> of the enqueue loop can
  take the \<^verbatim>\<open>ctx.Done()\<close> case, and then the call returns at once \<^verbatim>\<open>nil\<close> and the
  context's error, whatever the workers have produced; (3) a worker that finds the
  context done at its \<^verbatim>\<open>select\<close>, between two jobs, returns without searching and
  reports nothing.
\<close>

lemma cancellation_paths:
  assumes "run sf q sessions schedule (initial c) = Some s"
  shows "(\<forall>rs e. pc s = Returned rs (Some e) \<longrightarrow>
            rs = [] \<and> ctxErr s = Some e \<and> (e = Canceled \<or> e = DeadlineExceeded))
       \<and> (\<forall>i e. pc s = Enqueue i \<and> i < length sessions \<and> ctxErr s = Some e \<and> crashed s = None \<longrightarrow>
            SearchContent sf c q sessions (schedule @ [MainStep True]) = Some ([], Some e))
       \<and> (\<forall>k job e. k < length (workers s) \<and> workers s ! k = Selecting job \<and>
                     ctxErr s = Some e \<and> crashed s = None \<longrightarrow>
            step sf q sessions (WorkerStep k) s = Some (s\<lparr>workers := (workers s)[k := Exited]\<rparr>))"
proof -
  from assms have inv: "safe sf q sessions s" by (rule run_initial_safe)
  note d = safeD [OF inv]
  have a: "\<forall>rs e. pc s = Returned rs (Some e) \<longrightarrow>
            rs = [] \<and> ctxErr s = Some e \<and> (e = Canceled \<or> e = DeadlineExceeded)"
    using d(7,8) by blast
  have b: "SearchContent sf c q sessions (schedule @ [MainStep True]) = Some ([], Some e)"
    if "pc s = Enqueue i" "i < length sessions" "ctxErr s = Some e" "crashed s = None" for i e
    using that assms
    by (simp add: SearchContent_def run_append step_def mainStep_def)
  have c: "step sf q sessions (WorkerStep k) s = Some (s\<lparr>workers := (workers s)[k := Exited]\<rparr>)"
    if "k < length (workers s)" "workers s ! k = Selecting job" "ctxErr s = Some e"
      "crashed s = None" for k job e
    using that by (simp add: step_def workerStep_def)
  from a b c show ?thesis by blast
qed

lemma cancellation_paths_example:
  "SearchContent (searchFile demoExec demoUnmarshal demoEngine) demoEngine ''OAuth'' twoSessions
     ([MainStep False, WorkerStep 0, WorkerStep 0, WorkerStep 0, CtxDone Canceled] @ [MainStep True])
   = Some ([], Some Canceled)
   \<and> (\<exists>s. run (searchFile demoExec demoUnmarshal demoEngine) ''OAuth'' twoSessions
            [MainStep False, WorkerStep 0, WorkerStep 0, WorkerStep 0, CtxDone Canceled]
            (initial demoEngine) = Some s
          \<and> results s = [oauthResult 0])
   \<and> (\<exists>s. run (searchFile demoExec demoUnmarshal demoEngine) ''OAuth'' twoSessions
            [MainStep False, WorkerStep 0, WorkerStep 0, WorkerStep 0, CtxDone Canceled, MainStep True]
            (initial demoEngine) = Some s
          \<and> pc s = Returned [] (Some Canceled) \<and> ctxErr s = Some Canceled)
   \<and> (\<exists>s. run (searchFile demoExec demoUnmarshal demoEngine) ''OAuth'' twoSessions
            [MainStep False, WorkerStep 0, CtxDone DeadlineExceeded] (initial demoEngine) = Some s
          \<and> workers s ! 0 = Selecting \<lparr>query = ''OAuth'', session = twoSessions ! 0, sessionIndex = 0\<rparr>
          \<and> step (searchFile demoExec demoUnmarshal demoEngine) ''OAuth'' twoSessions (WorkerStep 0) s
              = Some (s\<lparr>workers := (workers s)[0 := Exited]\<rparr>))"
proof -
  let ?sf = "searchFile demoExec demoUnmarshal demoEngine"
  let ?P = "[MainStep False, WorkerStep 0, WorkerStep 0, WorkerStep 0, CtxDone Canceled]"
  let ?Q = "[MainStep False, WorkerStep 0, WorkerStep 0, WorkerStep 0, CtxDone Canceled, MainStep True]"
  let ?R = "[MainStep False, WorkerStep 0, CtxDone DeadlineExceeded]"
  let ?job = "\<lparr>query = ''OAuth'', session = twoSessions ! 0, sessionIndex = 0\<rparr>"
  have "\<exists>s. run ?sf ''OAuth'' twoSessions ?P (initial demoEngine) = Some s \<and>
      pc s = Enqueue 1 \<and> ctxErr s = Some Canceled \<and> crashed s = None \<and> results s = [oauthResult 0]"
    by (simp add: pool_simps demo_searchFile [unfolded demoEngine_def] oauthResult_def)
  then obtain s where s: "run ?sf ''OAuth'' twoSessions ?P (initial demoEngine) = Some s"
    "pc s = Enqueue 1" "ctxErr s = Some Canceled" "crashed s = None" "results s = [oauthResult 0]"
    by blast
  have len: "(1::nat) < length twoSessions" by (simp add: twoSessions_def)
  from cancellation_paths [OF s(1)] s(2-4) len
  have a: "SearchContent ?sf demoEngine ''OAuth'' twoSessions (?P @ [MainStep True]) =
      Some ([], Some Canceled)"
    by blast
  from s(1,5) have b: "\<exists>s. run ?sf ''OAuth'' twoSessions ?P (initial demoEngine) = Some s \<and>
      results s = [oauthResult 0]" by blast
  from a have "SearchContent ?sf demoEngine ''OAuth'' twoSessions ?Q = Some ([], Some Canceled)"
    by simp
  then obtain t where t: "run ?sf ''OAuth'' twoSessions ?Q (initial demoEngine) = Some t"
    "pc t = Returned [] (Some Canceled)"
    by (rule SearchContent_run)
  from cancellation_paths [OF t(1)] t(2) have "ctxErr t = Some Canceled" by blast
  with t have c: "\<exists>s. run ?sf ''OAuth'' twoSessions ?Q (initial demoEngine) = Some s \<and>
      pc s = Returned [] (Some Canceled) \<and> ctxErr s = Some Canceled" by blast
  have "\<exists>s. run ?sf ''OAuth'' twoSessions ?R (initial demoEngine) = Some s \<and>
      0 < length (workers s) \<and> workers s ! 0 = Selecting ?job \<and>
      ctxErr s = Some DeadlineExceeded \<and> crashed s = None"
    by (simp add: pool_simps)
  then obtain u where u: "run ?sf ''OAuth'' twoSessions ?R (initial demoEngine) = Some u"
    "0 < length (workers u)" "workers u ! 0 = Selecting ?job"
    "ctxErr u = Some DeadlineExceeded" "crashed u = None"
    by blast
  from cancellation_paths [OF u(1)] u(2-5)
  have "step ?sf ''OAuth'' twoSessions (WorkerStep 0) u = Some (u\<lparr>workers := (workers u)[0 := Exited]\<rparr>)"
    by blast
  with u(1,3) have d: "\<exists>s. run ?sf ''OAuth'' twoSessions ?R (initial demoEngine) = Some s
          \<and> workers s ! 0 = Selecting ?job
          \<and> step ?sf ''OAuth'' twoSessions (WorkerStep 0) s
              = Some (s\<lparr>workers := (workers s)[0 := Exited]\<rparr>)"
    by blast
  from a b c d show ?thesis by blast
qed

text \<open>
  Once the enqueue loop is over, nothing looks at the context on the way to the
  return: whatever happens afterwards, a call that returns returns the \<^verbatim>\<open>nil\<close> error,
  with every result collected so far.
\<close>

lemma step_after_enqueue:
  assumes st: "step sf q sessions ev s = Some s'"
    and pc: "(\<exists>acc'. pc s = Collect acc' \<and> prefix acc acc') \<or>
             (\<exists>rs. pc s = Returned rs None \<and> prefix acc rs)"
  shows "(\<exists>acc'. pc s' = Collect acc' \<and> prefix acc acc') \<or>
         (\<exists>rs. pc s' = Returned rs None \<and> prefix acc rs)"
proof (cases ev)
  case (CtxDone e)
  with st have "pc s' = pc s" by (auto simp: step_def split: if_splits)
  with pc show ?thesis by simp
next
  case (MainStep takeDone)
  with st have m: "mainStep q sessions takeDone s = Some s'"
    by (simp add: step_def split: if_splits)
  from pc show ?thesis
  proof
    assume "\<exists>acc'. pc s = Collect acc' \<and> prefix acc acc'"
    then obtain acc' where c: "pc s = Collect acc'" and p: "prefix acc acc'" by blast
    from m c show ?thesis
    proof (cases rule: mainStep_Collect_cases)
      case (keep r rest)
      with p show ?thesis by simp
    next
      case (drop r rest)
      with p show ?thesis by simp
    next
      case return
      with p show ?thesis by simp
    qed
  next
    assume "\<exists>rs. pc s = Returned rs None \<and> prefix acc rs"
    with m show ?thesis by (auto simp: mainStep_def)
  qed
next
  case (WorkerStep k)
  with st have "workerStep sf (length sessions) k s = Some s'"
    by (simp add: step_def split: if_splits)
  then have "pc s' = pc s" by (cases rule: workerStep_cases) simp_all
  with pc show ?thesis by simp
next
  case CloserStep
  with st have "pc s' = pc s" by (auto simp: step_def closerStep_def split: if_splits)
  with pc show ?thesis by simp
qed

lemma run_after_enqueue:
  "run sf q sessions evs s = Some s' \<Longrightarrow>
   (\<exists>acc'. pc s = Collect acc' \<and> prefix acc acc') \<or>
   (\<exists>rs. pc s = Returned rs None \<and> prefix acc rs) \<Longrightarrow>
   (\<exists>acc'. pc s' = Collect acc' \<and> prefix acc acc') \<or>
   (\<exists>rs. pc s' = Returned rs None \<and> prefix acc rs)"
proof (induction evs arbitrary: s)
  case Nil
  then show ?case by simp
next
  case (Cons ev evs)
  from Cons.prems(1) obtain s1 where s1: "step sf q sessions ev s = Some s1"
    and r: "run sf q sessions evs s1 = Some s'"
    by (auto split: option.splits)
  from step_after_enqueue [OF s1 Cons.prems(2)] have
    "(\<exists>acc'. pc s1 = Collect acc' \<and> prefix acc acc') \<or>
     (\<exists>rs. pc s1 = Returned rs None \<and> prefix acc rs)" .
  with r show ?case by (rule Cons.IH)
qed

lemma no_error_after_enqueue:
  assumes b: "run sf q sessions before (initial c) = Some s"
    and pc: "pc s = Collect acc"
    and ret: "SearchContent sf c q sessions (before @ after) = Some (rs, err)"
  shows "err = None" and "prefix acc rs"
proof -
  from ret obtain s' where s': "run sf q sessions (before @ after) (initial c) = Some s'"
    "pc s' = Returned rs err"
    by (rule SearchContent_run)
  from s'(1) b have "run sf q sessions after s = Some s'" by (simp add: run_append)
  from run_after_enqueue [OF this, of acc] pc s'(2)
  show "err = None" and "prefix acc rs" by auto
qed

lemma run_deadline_at_enqueue:
  "SearchContent (searchFile demoExec demoUnmarshal demoEngine) demoEngine ''OAuth'' twoSessions
     scheduleDeadlineAtEnqueue = Some ([], None)"
  by (simp add: scheduleDeadlineAtEnqueue_def pool_simps)

lemma run_deadline_taken:
  "SearchContent (searchFile demoExec demoUnmarshal demoEngine) demoEngine ''OAuth'' twoSessions
     scheduleDeadlineTaken = Some ([], Some DeadlineExceeded)"
  by (simp add: scheduleDeadlineTaken_def pool_simps demo_searchFile [unfolded demoEngine_def]
      oauthResult_def)

text \<open>
  C2 does not hold of \<^verbatim>\<open>SearchContent\<close>. Two files, both with a match. When the
  deadline passes between the two jobs (the first file was searched and its result
  sent, no worker has taken the second job yet), the workers return and the call
  returns the first file's result with the \<^verbatim>\<open>nil\<close> error: a partial result beside a
  \<^verbatim>\<open>nil\<close> error. When the deadline passes during the enqueue loop and the \<^verbatim>\<open>select\<close>
  takes the send, which is ready as well, the call returns no result and the \<^verbatim>\<open>nil\<close>
  error. Only when the \<^verbatim>\<open>select\<close> of the enqueue loop takes \<^verbatim>\<open>ctx.Done()\<close> does the
  call return the context's error, dropping the result already produced.
\<close>

theorem SearchContent_late_deadline:
  "SearchContent (searchFile demoExec demoUnmarshal demoEngine) demoEngine ''OAuth'' twoSessions
     scheduleLateDeadline = Some ([oauthResult 0], None)
   \<and> CtxDone DeadlineExceeded \<in> set scheduleLateDeadline
   \<and> searchFile demoExec demoUnmarshal demoEngine ''OAuth'' (FilePath (twoSessions ! 1)) =
       Inr ([oauthMatch], None)
   \<and> SearchContent (searchFile demoExec demoUnmarshal demoEngine) demoEngine ''OAuth'' twoSessions
       scheduleDeadlineAtEnqueue = Some ([], None)
   \<and> CtxDone DeadlineExceeded \<in> set scheduleDeadlineAtEnqueue
   \<and> SearchContent (searchFile demoExec demoUnmarshal demoEngine) demoEngine ''OAuth'' twoSessions
       scheduleDeadlineTaken = Some ([], Some DeadlineExceeded)"
  using run_late_deadline demo_searchFile run_deadline_at_enqueue run_deadline_taken
  by (simp add: scheduleLateDeadline_def scheduleDeadlineAtEnqueue_def)

text \<open>
  C4, as the code has it. When the tool is not found, \<^verbatim>\<open>searchFile\<close> returns that
  error for every file; the workers drop it as they drop every error, so under every
  schedule \<^verbatim>\<open>SearchContent\<close> returns exactly what it returns when no file has a
  match: no results, and no error but the context's. There is nothing else it
  returns, hence no advisory. \<^verbatim>\<open>findRipgrep\<close> does not report the condition either:
  when no candidate is found it answers \<^verbatim>\<open>"rg"\<close>.
\<close>

theorem tool_not_found:
  assumes nf: "\<forall>name args. snd (exec name args) = Some ErrNotFound"
  shows "searchFile exec um c q filePath = Inr ([], Some ErrNotFound)
       \<and> SearchContent (searchFile exec um c) c q sessions schedule =
           SearchContent (\<lambda>q filePath. Inr ([], None)) c q sessions schedule
       \<and> (\<forall>rs err. SearchContent (searchFile exec um c) c q sessions schedule = Some (rs, err) \<longrightarrow>
            rs = [] \<and> (err = None \<or> err = Some Canceled \<or> err = Some DeadlineExceeded))
       \<and> ((\<forall>p \<in> set rgCandidates. \<not> lookPath p) \<longrightarrow> findRipgrep lookPath = ''rg'')"
proof -
  have sf: "searchFile exec um c q' p = Inr ([], Some ErrNotFound)" for q' p
  proof -
    obtain out e where "exec (rgPath c) (rgArgs q' p) = (out, e)" by (cases "exec (rgPath c) (rgArgs q' p)")
    moreover from this nf have "e = Some ErrNotFound" by (metis snd_conv)
    ultimately show ?thesis by (simp add: searchFile_def)
  qed
  have "errorsAsNoMatches (searchFile exec um c) = (\<lambda>q filePath. Inr ([], None))"
    by (intro ext) (simp add: errorsAsNoMatches_def sf)
  with SearchContent_errorsAsNoMatches [of "searchFile exec um c" c q sessions schedule]
  have eq: "SearchContent (searchFile exec um c) c q sessions schedule =
           SearchContent (\<lambda>q filePath. Inr ([], None)) c q sessions schedule"
    by simp
  have none: "rs = [] \<and> (err = None \<or> err = Some Canceled \<or> err = Some DeadlineExceeded)"
    if ret: "SearchContent (searchFile exec um c) c q sessions schedule = Some (rs, err)" for rs err
  proof -
    from ret obtain s where s: "run (searchFile exec um c) q sessions schedule (initial c) = Some s"
      "pc s = Returned rs err"
      by (rule SearchContent_run)
    from s(1) have inv: "safe (searchFile exec um c) q sessions s" by (rule run_initial_safe)
    note d = safeD [OF inv]
    have "\<not> wfRes (searchFile exec um c) q sessions r" for r
      by (simp add: wfRes_def emits_def sf)
    with returned_results(1) [OF inv s(2)] have "rs = []" by (cases rs) auto
    moreover have "err = None \<or> err = Some Canceled \<or> err = Some DeadlineExceeded"
      using d(7,8) s(2) by (cases err) auto
    ultimately show ?thesis by simp
  qed
  have fr: "findRipgrep lookPath = ''rg''" if "\<forall>p \<in> set rgCandidates. \<not> lookPath p"
  proof -
    from that have "find lookPath rgCandidates = None" by (simp add: find_None_iff)
    then show ?thesis by (simp add: findRipgrep_def)
  qed
  from sf eq none fr show ?thesis by blast
qed

theorem tool_not_found_witness:
  "searchFile notFoundExec demoUnmarshal demoEngine ''OAuth'' ''/s/a1.jsonl'' =
     Inr ([], Some ErrNotFound)
   \<and> SearchContent (searchFile notFoundExec demoUnmarshal demoEngine) demoEngine ''OAuth''
       twoSessions scheduleNoResults = Some ([], None)
   \<and> SearchContent (\<lambda>q filePath. Inr ([], None)) demoEngine ''OAuth''
       twoSessions scheduleNoResults = Some ([], None)
   \<and> findRipgrep (\<lambda>p. False) = ''rg''"
proof -
  have nf: "\<forall>name args. snd (notFoundExec name args) = Some ErrNotFound"
    by (simp add: notFoundExec_def)
  from tool_not_found [OF nf, of demoUnmarshal demoEngine "''OAuth''" "''/s/a1.jsonl''"
      twoSessions scheduleNoResults "\<lambda>p. False"] run_not_found
  show ?thesis by simp
qed

text \<open>
  The claim as the specification words it fails: with the tool not found, with a tool
  that exits with status 2 on every file, and with a tool that finds no match, the same
  schedule ends with the same return value, an empty list and the \<^verbatim>\<open>nil\<close> error. The
  engine is the one \<^verbatim>\<open>NewContentEngine\<close> builds when \<^verbatim>\<open>LookPath\<close> finds no candidate.
\<close>

theorem tool_not_found_counterexample:
  "SearchContent (searchFile notFoundExec demoUnmarshal demoEngine) demoEngine ''OAuth''
     twoSessions scheduleNoResults = Some ([], None)
   \<and> SearchContent (searchFile brokenExec demoUnmarshal demoEngine) demoEngine ''OAuth''
       twoSessions scheduleNoResults = Some ([], None)
   \<and> SearchContent (searchFile demoExecNoMatch demoUnmarshal demoEngine) demoEngine ''OAuth''
       twoSessions scheduleNoResults = Some ([], None)
   \<and> NewContentEngine (\<lambda>p. False) = demoEngine"
  using run_not_found run_broken run_no_match
  by (simp add: NewContentEngine_def findRipgrep_def rgCandidates_def demoEngine_def)

section \<open>Termination of SearchContent and isolation of failing files\<close>

lemma weight_update:
  assumes "k < length ws"
  shows "sum_list (map workerWeight (ws[k := w])) + workerWeight (ws ! k) =
         sum_list (map workerWeight ws) + workerWeight w"
  using assms by (rule sum_list_map_update)

lemma stepsLeft_mainStep:
  assumes st: "mainStep q sessions takeDone s = Some s'"
    and le: "bound (length sessions) (pc s) \<le> length sessions"
  shows "stepsLeft (length sessions) s' < stepsLeft (length sessions) s"
proof (cases "pc s")
  case (Enqueue i)
  with le have "i \<le> length sessions" by (simp add: bound_def)
  with st Enqueue show ?thesis
    by (cases rule: mainStep_Enqueue_cases)
       (simp_all add: stepsLeft_def mainWeight_def Enqueue)
next
  case (Collect acc)
  with st show ?thesis
    by (cases rule: mainStep_Collect_cases)
       (simp_all add: stepsLeft_def mainWeight_def Collect)
next
  case (Returned rs err)
  with st show ?thesis by (simp add: mainStep_def)
qed

lemma stepsLeft_workerStep:
  assumes st: "workerStep sf cap k s = Some s'" and nc: "crashed s = None"
  shows "stepsLeft n s' < stepsLeft n s"
  using st
proof (cases rule: workerStep_cases)
  case (receive job rest)
  with weight_update [OF receive(1), of "Selecting job"] show ?thesis
    by (simp add: stepsLeft_def workerWeight_def)
next
  case finish
  with weight_update [OF finish(1), of Exited] show ?thesis
    by (simp add: stepsLeft_def workerWeight_def)
next
  case (cancelled job e)
  with weight_update [OF cancelled(1), of Exited] show ?thesis
    by (simp add: stepsLeft_def workerWeight_def)
next
  case (panic job p)
  with nc show ?thesis by (simp add: stepsLeft_def)
next
  case (found job matches)
  with weight_update [OF found(1), of "Sending \<lparr>SessionID = ID (session job),
      SessionIndex = sessionIndex job, Matches = matches, Score = real (length matches)\<rparr>"]
  show ?thesis
    by (simp add: stepsLeft_def workerWeight_def)
next
  case (nomatch job matches err)
  with weight_update [OF nomatch(1), of Receiving] show ?thesis
    by (simp add: stepsLeft_def workerWeight_def)
next
  case (send r)
  with weight_update [OF send(1), of Receiving] show ?thesis
    by (simp add: stepsLeft_def workerWeight_def)
qed

lemma stepsLeft_step:
  assumes st: "step sf q sessions ev s = Some s'"
    and le: "bound (length sessions) (pc s) \<le> length sessions"
  shows "(\<forall>e. ev \<noteq> CtxDone e) \<Longrightarrow> stepsLeft (length sessions) s' < stepsLeft (length sessions) s"
    and "stepsLeft (length sessions) s' \<le> stepsLeft (length sessions) s"
proof -
  from st have nc: "crashed s = None" by (simp add: step_def split: if_splits)
  have "((\<forall>e. ev \<noteq> CtxDone e) \<longrightarrow> stepsLeft (length sessions) s' < stepsLeft (length sessions) s)
      \<and> stepsLeft (length sessions) s' \<le> stepsLeft (length sessions) s"
  proof (cases ev)
    case (CtxDone e)
    with st nc have "s' = s\<lparr>ctxErr := Some e\<rparr>" by (simp add: step_def split: if_splits)
    with CtxDone show ?thesis by (simp add: stepsLeft_def)
  next
    case (MainStep takeDone)
    with st nc have "mainStep q sessions takeDone s = Some s'" by (simp add: step_def)
    from stepsLeft_mainStep [OF this le] show ?thesis by simp
  next
    case (WorkerStep k)
    with st nc have "workerStep sf (length sessions) k s = Some s'" by (simp add: step_def)
    from stepsLeft_workerStep [OF this nc] show ?thesis by (simp add: less_imp_le)
  next
    case CloserStep
    with st nc have "s' = s\<lparr>resultsClosed := True\<rparr>" "\<not> resultsClosed s"
      by (simp_all add: step_def closerStep_def split: if_splits)
    then show ?thesis by (simp add: stepsLeft_def)
  qed
  then show "(\<forall>e. ev \<noteq> CtxDone e) \<Longrightarrow> stepsLeft (length sessions) s' < stepsLeft (length sessions) s"
    and "stepsLeft (length sessions) s' \<le> stepsLeft (length sessions) s" by blast+
qed

lemma tokens_size:
  "length (jobs s) \<le> size (tokens s)" "length (results s) \<le> size (tokens s)"
  by (simp_all add: tokens_def)

lemma worker_token_mem:
  assumes "k < length ws" "ws ! k = Sending r"
  shows "size (sum_list (map workerTokens ws)) \<ge> 1"
proof -
  from worker_tokens_update [OF assms(1), of Exited] assms(2)
  have "sum_list (map workerTokens ws) = sum_list (map workerTokens (ws[k := Exited])) + {#resIdx r#}"
    by (simp add: workerTokens_def)
  then have "size (sum_list (map workerTokens ws)) =
      size (sum_list (map workerTokens (ws[k := Exited]))) + 1"
    by simp
  then show ?thesis by simp
qed

lemma progress:
  assumes inv: "safe sf q sessions s" and cmp: "complete sf q sessions s"
    and nc: "crashed s = None" and run: "\<forall>rs err. pc s \<noteq> Returned rs err"
  shows "\<exists>ev s'. (\<forall>e. ev \<noteq> CtxDone e) \<and> step sf q sessions ev s = Some s'"
proof -
  note d = safeD [OF inv]
  note c = completeD [OF cmp]
  have sz: "size (tokens s) \<le> bound (length sessions) (pc s)"
    using size_mset_mono [OF d(5)] by simp
  show ?thesis
  proof (cases "pc s")
    case (Enqueue i)
    from sz d(6) Enqueue tokens_size(1) [of s]
    have "i < length sessions \<Longrightarrow> length (jobs s) < length sessions"
      by (simp add: bound_def)
    then have "\<exists>s'. mainStep q sessions False s = Some s'"
      using Enqueue by (simp add: mainStep_def)
    then obtain s' where "step sf q sessions (MainStep False) s = Some s'"
      using nc by (auto simp: step_def)
    then show ?thesis by blast
  next
    case (Collect acc)
    from c(2) Collect have jc: "jobsClosed s" by simp
    show ?thesis
    proof (cases "results s = [] \<and> \<not> resultsClosed s")
      case False
      then have "\<exists>s'. mainStep q sessions False s = Some s'"
        using Collect by (cases "results s") (auto simp: mainStep_def)
      then obtain s' where "step sf q sessions (MainStep False) s = Some s'"
        using nc by (auto simp: step_def)
      then show ?thesis by blast
    next
      case True
      show ?thesis
      proof (cases "\<forall>w \<in> set (workers s). w = Exited")
        case ex: True
        with True Collect nc have "step sf q sessions CloserStep s = Some (s\<lparr>resultsClosed := True\<rparr>)"
          by (simp add: step_def closerStep_def closerStarted_def)
        then show ?thesis by blast
      next
        case False
        then obtain k where k: "k < length (workers s)" "workers s ! k \<noteq> Exited"
          by (auto simp: in_set_conv_nth)
        have "\<exists>s'. workerStep sf (length sessions) k s = Some s'"
        proof (cases "workers s ! k")
          case Receiving
          with k jc show ?thesis by (cases "jobs s") (simp_all add: workerStep_def)
        next
          case (Selecting job)
          with k show ?thesis
            by (cases "ctxErr s"; cases "sf (query job) (FilePath (session job))")
               (auto simp add: workerStep_def split: prod.splits)
        next
          case (Sending r)
          from worker_token_mem [OF k(1) Sending]
          have "1 \<le> size (tokens s)" by (simp add: tokens_def)
          moreover from sz Collect have "size (tokens s) \<le> length sessions"
            by (simp add: bound_def)
          ultimately have "0 < length sessions" by arith
          with k Sending True show ?thesis by (simp add: workerStep_def)
        next
          case Exited
          with k show ?thesis by simp
        qed
        then obtain s' where "step sf q sessions (WorkerStep k) s = Some s'"
          using nc by (auto simp: step_def)
        then show ?thesis by blast
      qed
    qed
  next
    case (Returned rs err)
    with run show ?thesis by simp
  qed
qed

lemma can_finish:
  assumes "safe sf q sessions s" and "complete sf q sessions s"
  shows "\<exists>more s'. (\<forall>e. CtxDone e \<notin> set more) \<and> run sf q sessions more s = Some s' \<and>
           ((\<exists>rs err. pc s' = Returned rs err) \<or> crashed s' \<noteq> None)"
  using assms
proof (induction "stepsLeft (length sessions) s" arbitrary: s rule: less_induct)
  case less
  show ?case
  proof (cases "(\<exists>rs err. pc s = Returned rs err) \<or> crashed s \<noteq> None")
    case True
    then have "(\<forall>e. CtxDone e \<notin> set []) \<and> run sf q sessions [] s = Some s \<and>
           ((\<exists>rs err. pc s = Returned rs err) \<or> crashed s \<noteq> None)"
      by simp
    then show ?thesis by blast
  next
    case False
    then have nc: "crashed s = None" and nr: "\<forall>rs err. pc s \<noteq> Returned rs err" by auto
    from progress [OF less.prems nc nr] obtain ev s1
      where ev: "\<forall>e. ev \<noteq> CtxDone e" and st: "step sf q sessions ev s = Some s1"
      by blast
    from safeD(6) [OF less.prems(1)]
    have "stepsLeft (length sessions) s1 < stepsLeft (length sessions) s"
      using stepsLeft_step(1) [OF st _ ev] by simp
    moreover have "safe sf q sessions s1" using less.prems(1) st by (rule safe_step)
    moreover have "complete sf q sessions s1" using less.prems st by (rule complete_step)
    ultimately obtain more s' where m: "\<forall>e. CtxDone e \<notin> set more"
      "run sf q sessions more s1 = Some s'"
      "(\<exists>rs err. pc s' = Returned rs err) \<or> crashed s' \<noteq> None"
      using less.hyps by blast
    from m ev st have "(\<forall>e. CtxDone e \<notin> set (ev # more)) \<and>
        run sf q sessions (ev # more) s = Some s' \<and>
        ((\<exists>rs err. pc s' = Returned rs err) \<or> crashed s' \<noteq> None)"
      by auto
    then show ?thesis by blast
  qed
qed

lemma run_bounded:
  "safe sf q sessions s \<Longrightarrow> run sf q sessions evs s = Some s' \<Longrightarrow>
   length (filter (\<lambda>ev. \<forall>e. ev \<noteq> CtxDone e) evs) + stepsLeft (length sessions) s'
     \<le> stepsLeft (length sessions) s"
proof (induction evs arbitrary: s)
  case Nil
  then show ?case by simp
next
  case (Cons ev evs)
  from Cons.prems(2) obtain s1 where s1: "step sf q sessions ev s = Some s1"
    and r: "run sf q sessions evs s1 = Some s'"
    by (auto split: option.splits)
  from Cons.prems(1) s1 have inv1: "safe sf q sessions s1" by (rule safe_step)
  note ih = Cons.IH [OF inv1 r]
  note le = safeD(6) [OF Cons.prems(1)]
  show ?case
  proof (cases "\<forall>e. ev \<noteq> CtxDone e")
    case True
    from stepsLeft_step(1) [OF s1 le True] ih True show ?thesis by simp
  next
    case False
    then obtain e where "ev = CtxDone e" by blast
    with stepsLeft_step(2) [OF s1 le] ih show ?thesis by simp
  qed
qed

lemma ctx_once:
  "run sf q sessions evs s = Some s' \<Longrightarrow>
   length (filter (\<lambda>ev. \<exists>e. ev = CtxDone e) evs) \<le> (if ctxErr s = None then 1 else 0) \<and>
   (ctxErr s \<noteq> None \<longrightarrow> ctxErr s' \<noteq> None)"
proof (induction evs arbitrary: s)
  case Nil
  then show ?case by simp
next
  case (Cons ev evs)
  from Cons.prems obtain s1 where s1: "step sf q sessions ev s = Some s1"
    and r: "run sf q sessions evs s1 = Some s'"
    by (auto split: option.splits)
  note ih = Cons.IH [OF r]
  show ?case
  proof (cases "\<exists>e. ev = CtxDone e")
    case True
    then obtain e where e: "ev = CtxDone e" by blast
    with s1 have "ctxErr s = None" "ctxErr s1 = Some e"
      by (auto simp: step_def split: if_splits)
    with ih e show ?thesis by simp
  next
    case False
    then have "\<forall>e. ev \<noteq> CtxDone e" by blast
    from step_frame(2) [OF s1 this] ih False show ?thesis by auto
  qed
qed

lemma length_split_filter:
  "length evs = length (filter P evs) + length (filter (\<lambda>x. \<not> P x) evs)"
  by (induction evs) auto

lemma schedule_bounded:
  assumes "run sf q sessions schedule (initial c) = Some s"
  shows "length schedule \<le> 5 * length sessions + nat (maxWorkers c) + 5"
proof -
  have w: "sum_list (replicate n (workerWeight Receiving)) = n" for n
    by (induction n) (simp_all add: workerWeight_def)
  have init: "stepsLeft (length sessions) (initial c) = 5 * length sessions + nat (maxWorkers c) + 4"
    by (simp add: stepsLeft_def initial_def mainWeight_def w)
  from run_bounded [OF safe_initial assms]
  have a: "length (filter (\<lambda>ev. \<forall>e. ev \<noteq> CtxDone e) schedule) \<le>
      5 * length sessions + nat (maxWorkers c) + 4"
    by (simp add: init)
  from ctx_once [OF assms]
  have b: "length (filter (\<lambda>ev. \<not> (\<forall>e. ev \<noteq> CtxDone e)) schedule) \<le> 1"
    by (simp add: initial_def)
  from length_split_filter [of schedule "\<lambda>ev. \<forall>e. ev \<noteq> CtxDone e"] a b show ?thesis by simp
qed

lemma no_crash_step:
  assumes inv: "safe sf q sessions s" and np: "\<forall>filePath p. sf q filePath \<noteq> Inl p"
    and st: "step sf q sessions ev s = Some s'"
  shows "crashed s' = None"
proof -
  from st have nc: "crashed s = None" by (simp add: step_def split: if_splits)
  show ?thesis
  proof (cases ev)
    case (CtxDone e)
    with st nc show ?thesis by (auto simp: step_def split: if_splits)
  next
    case (MainStep takeDone)
    with st nc have m: "mainStep q sessions takeDone s = Some s'" by (simp add: step_def)
    show ?thesis
    proof (cases "pc s")
      case (Enqueue i)
      with m nc show ?thesis by (auto simp: mainStep_def split: if_splits option.splits)
    next
      case (Collect acc)
      from m Collect show ?thesis
        by (cases rule: mainStep_Collect_cases) (use nc in simp_all)
    next
      case (Returned rs err)
      with m show ?thesis by (simp add: mainStep_def)
    qed
  next
    case (WorkerStep k)
    with st nc have "workerStep sf (length sessions) k s = Some s'" by (simp add: step_def)
    then show ?thesis
    proof (cases rule: workerStep_cases)
      case (panic job p)
      from safeD(2) [OF inv] panic(1) have "wfWorker sf q sessions (workers s ! k)" by simp
      then have "query job = q" by (simp add: panic(2) wfWorker_def wfJob_def)
      with panic(4) np show ?thesis by simp
    qed (use nc in simp_all)
  next
    case CloserStep
    with st nc show ?thesis by (auto simp: step_def closerStep_def split: if_splits)
  qed
qed

lemma no_crash_run:
  "safe sf q sessions s \<Longrightarrow> \<forall>filePath p. sf q filePath \<noteq> Inl p \<Longrightarrow> crashed s = None \<Longrightarrow>
   run sf q sessions evs s = Some s' \<Longrightarrow> crashed s' = None"
proof (induction evs arbitrary: s)
  case Nil
  then show ?case by simp
next
  case (Cons ev evs)
  from Cons.prems(4) obtain s1 where s1: "step sf q sessions ev s = Some s1"
    and r: "run sf q sessions evs s1 = Some s'"
    by (auto split: option.splits)
  from Cons.prems(1) s1 have "safe sf q sessions s1" by (rule safe_step)
  moreover from Cons.prems(1,2) s1 have "crashed s1 = None" by (rule no_crash_step)
  ultimately show ?case using Cons.prems(2) r by (intro Cons.IH)
qed

text \<open>
  C8. Take any run in which the context is never done, with an engine that has a
  worker and a search that returns (no panic) on every file. (1) If
  \<^verbatim>\<open>SearchContent\<close> has returned, it has returned the \<^verbatim>\<open>nil\<close> error and, in some
  order, exactly the results of the sessions whose own file was searched without
  error and with at least one match: a file whose search fails takes no other file's
  result away. (2) If it has not, the run can be continued to its return, with that
  same outcome. (3) No run is longer than \<open>5 * len(sessions) + maxWorkers + 5\<close> steps,
  so the call cannot go on for ever. (4) Under every schedule the call returns what it
  would return if each failing search had found no match.
\<close>

theorem SearchContent_isolates_failures:
  assumes run: "run sf q sessions schedule (initial c) = Some s"
    and noctx: "\<forall>e. CtxDone e \<notin> set schedule"
    and w: "0 < maxWorkers c"
    and np: "\<forall>filePath p. sf q filePath \<noteq> Inl p"
  shows "(\<forall>rs err. pc s = Returned rs err \<longrightarrow>
            err = None \<and>
            mset rs = mset (map (resultOf sf q sessions)
                             (filter (emits sf q sessions) [0..<length sessions])))
       \<and> (\<exists>more rs. (\<forall>e. CtxDone e \<notin> set more) \<and>
            SearchContent sf c q sessions (schedule @ more) = Some (rs, None) \<and>
            mset rs = mset (map (resultOf sf q sessions)
                             (filter (emits sf q sessions) [0..<length sessions])))
       \<and> length schedule \<le> 5 * length sessions + nat (maxWorkers c) + 5
       \<and> SearchContent (errorsAsNoMatches sf) c q sessions schedule =
           SearchContent sf c q sessions schedule"
proof -
  let ?expected = "mset (map (resultOf sf q sessions)
                             (filter (emits sf q sessions) [0..<length sessions]))"
  from invariants_run [OF safe_initial complete_initial run]
  have inv: "safe sf q sessions s" and cmp: "complete sf q sessions s" by simp_all
  have fin: "err = None \<and> mset rs = ?expected"
    if r: "run sf q sessions evs (initial c) = Some t" and n: "\<forall>e. CtxDone e \<notin> set evs"
      and p: "pc t = Returned rs err" for evs t rs err
  proof -
    from invariants_run [OF safe_initial complete_initial r]
    have i: "safe sf q sessions t" and cm: "complete sf q sessions t" by simp_all
    from run_frame [OF r] n
    have ctx: "ctxErr t = None" and len: "length (workers t) = length (workers (initial c))"
      by (simp_all add: initial_def)
    from len w have ws: "workers t \<noteq> []" by (auto simp: initial_def)
    from returned_all [OF i cm p ctx ws] show ?thesis by simp
  qed
  have a: "\<forall>rs err. pc s = Returned rs err \<longrightarrow> err = None \<and> mset rs = ?expected"
    using fin [OF run noctx] by blast
  from can_finish [OF inv cmp] obtain more s'
    where m: "\<forall>e. CtxDone e \<notin> set more" "run sf q sessions more s = Some s'"
      "(\<exists>rs err. pc s' = Returned rs err) \<or> crashed s' \<noteq> None"
    by blast
  from run m(2) have r': "run sf q sessions (schedule @ more) (initial c) = Some s'"
    by (simp add: run_append)
  have "crashed s' = None"
    using safe_initial np _ r' by (rule no_crash_run) (simp add: initial_def)
  with m(3) obtain rs err where p: "pc s' = Returned rs err" by blast
  from noctx m(1) have n': "\<forall>e. CtxDone e \<notin> set (schedule @ more)" by simp
  from fin [OF r' n' p] r' p
  have "SearchContent sf c q sessions (schedule @ more) = Some (rs, None) \<and> mset rs = ?expected"
    by (simp add: SearchContent_def)
  with m(1) have b: "\<exists>more rs. (\<forall>e. CtxDone e \<notin> set more) \<and>
            SearchContent sf c q sessions (schedule @ more) = Some (rs, None) \<and>
            mset rs = ?expected"
    by blast
  from a b schedule_bounded [OF run] SearchContent_errorsAsNoMatches [of sf c q sessions schedule]
  show ?thesis by blast
qed

lemma mixed_searchFile_any:
  "searchFile mixedExec demoUnmarshal demoEngine q' p =
     (if p = ''/s/a1.jsonl'' then Inr ([oauthMatch], None) else Inr ([], Some (ExitError 2)))"
  by (simp add: searchFile_def mixedExec_def rgArgs_def demo_parse)

theorem SearchContent_isolates_failures_witness:
  "SearchContent (searchFile mixedExec demoUnmarshal demoEngine) demoEngine ''OAuth'' twoSessions
     scheduleOneFails = Some ([oauthResult 0], None)
   \<and> searchFile mixedExec demoUnmarshal demoEngine ''OAuth'' (FilePath (twoSessions ! 1)) =
       Inr ([], Some (ExitError 2))
   \<and> mset [oauthResult 0] =
       mset (map (resultOf (searchFile mixedExec demoUnmarshal demoEngine) ''OAuth'' twoSessions)
              (filter (emits (searchFile mixedExec demoUnmarshal demoEngine) ''OAuth'' twoSessions)
                 [0..<length twoSessions]))
   \<and> length scheduleOneFails \<le> 5 * length twoSessions + nat (maxWorkers demoEngine) + 5
   \<and> SearchContent (errorsAsNoMatches (searchFile mixedExec demoUnmarshal demoEngine)) demoEngine
       ''OAuth'' twoSessions scheduleOneFails = Some ([oauthResult 0], None)"
proof -
  let ?sf = "searchFile mixedExec demoUnmarshal demoEngine"
  from run_one_fails obtain s
    where s: "run ?sf ''OAuth'' twoSessions scheduleOneFails (initial demoEngine) = Some s"
      "pc s = Returned [oauthResult 0] None"
    by (rule SearchContent_run)
  have a: "\<forall>e. CtxDone e \<notin> set scheduleOneFails" by (simp add: scheduleOneFails_def)
  have b: "0 < maxWorkers demoEngine" by (simp add: demoEngine_def)
  have np: "\<forall>filePath p. ?sf ''OAuth'' filePath \<noteq> Inl p" by (simp add: mixed_searchFile_any)
  have c: "?sf ''OAuth'' (FilePath (twoSessions ! 1)) = Inr ([], Some (ExitError 2))"
    by (simp add: twoSessions_def mixed_searchFile_any)
  note t = SearchContent_isolates_failures [OF s(1) a b np]
  from t s(2) have "mset [oauthResult 0] =
       mset (map (resultOf ?sf ''OAuth'' twoSessions)
              (filter (emits ?sf ''OAuth'' twoSessions) [0..<length twoSessions]))"
    by blast
  moreover from t have "length scheduleOneFails \<le>
      5 * length twoSessions + nat (maxWorkers demoEngine) + 5" by blast
  moreover from t run_one_fails
  have "SearchContent (errorsAsNoMatches ?sf) demoEngine ''OAuth'' twoSessions scheduleOneFails =
      Some ([oauthResult 0], None)"
    by simp
  ultimately show ?thesis using run_one_fails c by blast
qed

end
